theory Spec2Isabelle
  imports Main
begin

unbundle bit_operations_syntax

section \<open>Python strings and errors\<close>

text \<open>
  A Python \<open>str\<close> is modelled as a \<open>string\<close>, one \<open>char\<close> per Python character.
  The model covers strings of ASCII characters, which the names of this program are
  (PandA field names, EPICS record names): the character classes below are the ASCII
  ones. Python's \<open>\w\<close>, \<open>isdigit\<close> and \<open>capitalize\<close> also know letters and digits
  beyond ASCII; strings with such characters are outside the model.
\<close>

datatype py_error =
    NotImplementedError
  | ValueError
  | AssertionError
  | IndexError
  | TypeError
  | ValidationError

definition is_digit :: "char \<Rightarrow> bool" where
  "is_digit c = (c \<in> set ''0123456789'')"

definition lowers :: string where
  "lowers = ''abcdefghijklmnopqrstuvwxyz''"

definition uppers :: string where
  "uppers = ''ABCDEFGHIJKLMNOPQRSTUVWXYZ''"

definition is_alnum :: "char \<Rightarrow> bool" where
  "is_alnum c = (c \<in> set lowers \<or> c \<in> set uppers \<or> is_digit c)"

definition is_word :: "char \<Rightarrow> bool" where
  "is_word c = (is_alnum c \<or> c = CHR ''_'')"

text \<open>\<open>str.upper\<close> and \<open>str.lower\<close> on one character.\<close>

definition upper_char :: "char \<Rightarrow> char" where
  "upper_char c = (case map_of (zip lowers uppers) c of Some u \<Rightarrow> u | None \<Rightarrow> c)"

definition lower_char :: "char \<Rightarrow> char" where
  "lower_char c = (case map_of (zip uppers lowers) c of Some l \<Rightarrow> l | None \<Rightarrow> c)"

text \<open>\<open>str.capitalize()\<close>: first character upper case, the rest lower case.\<close>

fun capitalize :: "string \<Rightarrow> string" where
  "capitalize [] = []"
| "capitalize (c # cs) = upper_char c # map lower_char cs"

text \<open>\<open>s.replace(a, b)\<close> for one-character \<open>a\<close> and \<open>b\<close>.\<close>

definition replace_char :: "char \<Rightarrow> char \<Rightarrow> string \<Rightarrow> string" where
  "replace_char a b s = map (\<lambda>c. if c = a then b else c) s"

text \<open>\<open>s.endswith(suf)\<close>.\<close>

definition endswith :: "string \<Rightarrow> string \<Rightarrow> bool" where
  "endswith s suf = (length suf \<le> length s \<and> drop (length s - length suf) s = suf)"

text \<open>
  Splitting at every character that satisfies \<open>p\<close>; \<open>s.split(sep)\<close> is the case
  \<open>p = (\<lambda>c. c = sep)\<close>. The result is never empty: \<open>''''.split(sep) == ['''']\<close>.
\<close>

fun split_where :: "(char \<Rightarrow> bool) \<Rightarrow> string \<Rightarrow> string list" where
  "split_where p [] = [[]]"
| "split_where p (c # cs) =
     (if p c then [] # split_where p cs
      else (case split_where p cs of
              [] \<Rightarrow> [[c]]
            | w # ws \<Rightarrow> (c # w) # ws))"

definition split_on :: "char \<Rightarrow> string \<Rightarrow> string list" where
  "split_on sep s = split_where (\<lambda>c. c = sep) s"

text \<open>\<open>s.split(sep, maxsplit=1)\<close>: at most one split, at the first separator.\<close>

definition split_max1 :: "char \<Rightarrow> string \<Rightarrow> string list" where
  "split_max1 sep s =
     (if sep \<in> set s
      then [takeWhile (\<lambda>c. c \<noteq> sep) s, tl (dropWhile (\<lambda>c. c \<noteq> sep) s)]
      else [s])"

text \<open>\<open>xs[-k]\<close> for \<open>k \<ge> 1\<close>; Python raises IndexError out of range.\<close>

definition index_from_end :: "'a list \<Rightarrow> nat \<Rightarrow> py_error + 'a" where
  "index_from_end xs k =
     (if 1 \<le> k \<and> k \<le> length xs then Inr (xs ! (length xs - k)) else Inl IndexError)"

text \<open>
  \<open>re.search(r"[A-Za-z0-9]+", s)\<close>: the leftmost, longest run of alphanumeric
  characters, \<open>None\<close> when there is none.
\<close>

definition re_search_alnum :: "string \<Rightarrow> string option" where
  "re_search_alnum s =
     (let r = dropWhile (\<lambda>c. \<not> is_alnum c) s
      in if r = [] then None else Some (takeWhile is_alnum r))"

section \<open>The three name classes\<close>

text \<open>
  A validator receives either a plain \<open>str\<close>, an instance of one of the three name
  classes (carrying its \<open>name\<close> attribute), or a value of any other type. The
  \<open>match\<close> statement of each validator tests these classes in the order written.
\<close>

datatype name_value =
    VStr string
  | VEpicsName string
  | VPviName string
  | VPandAName string
  | VOther

text \<open>
  Field patterns, on ASCII strings: \<open>^[\w:-]+$\<close> for EpicsName, \<open>^[A-Za-z0-9]+$\<close> for
  PandAName and PviName.
\<close>

definition EpicsName_pattern :: "string \<Rightarrow> bool" where
  "EpicsName_pattern s =
     (s \<noteq> [] \<and> list_all (\<lambda>c. is_word c \<or> c = CHR '':'' \<or> c = CHR ''-'') s)"

definition PandAName_pattern :: "string \<Rightarrow> bool" where
  "PandAName_pattern s = (s \<noteq> [] \<and> list_all is_alnum s)"

definition PviName_pattern :: "string \<Rightarrow> bool" where
  "PviName_pattern s = (s \<noteq> [] \<and> list_all is_alnum s)"

text \<open>
  What a validator returns. None of the three validators has a \<open>return\<close> statement:
  a call that raises nothing returns \<open>None\<close>.
\<close>

datatype py_return = ReturnNone | ReturnStr string

text \<open>
  The outcome of a validator call that raises nothing: the value it returns, and the
  string it assigns to the class attribute \<open>cls.name\<close>.
\<close>

record validator_outcome =
  returned :: py_return
  class_name :: string

text \<open>\<open>cls.name = s\<close>, followed by the end of the function body.\<close>

definition assigns :: "string \<Rightarrow> py_error + validator_outcome" where
  "assigns s = Inr \<lparr>returned = ReturnNone, class_name = s\<rparr>"

definition EpicsName_init :: "name_value \<Rightarrow> py_error + validator_outcome" where
  "EpicsName_init v =
     (case v of
        VStr s \<Rightarrow> assigns s
      | VEpicsName n \<Rightarrow> assigns n
      | VPviName n \<Rightarrow> Inl NotImplementedError
      | VPandAName n \<Rightarrow> assigns (replace_char CHR ''.'' CHR '':'' n)
      | VOther \<Rightarrow> Inl ValueError)"

text \<open>
  The \<open>record_name\<close> that the EpicsName branch of \<open>PandAName.validator\<close> computes:
  the \<open>*METADATA\<close> key of a \<open>:LABEL\<close> name, and otherwise the part after the first
  colon (unpacking the split into two variables raises ValueError when there is no colon).
\<close>

definition record_name_of :: "string \<Rightarrow> py_error + string" where
  "record_name_of field_name =
     (if endswith field_name '':LABEL'' then
        (case index_from_end (split_on CHR '':'' field_name) 2 of
           Inl e \<Rightarrow> Inl e
         | Inr block_name \<Rightarrow>
             (case index_from_end block_name 1 of
                Inl e \<Rightarrow> Inl e
              | Inr c \<Rightarrow>
                  Inr (''*METADATA.LABEL_'' @
                       (if \<not> is_digit c then block_name @ ''1'' else block_name))))
      else
        (case split_max1 CHR '':'' field_name of
           [_, record_name] \<Rightarrow> Inr record_name
         | _ \<Rightarrow> Inl ValueError))"

text \<open>
  The validator computes \<open>record_name\<close> and then assigns
  \<open>value.name.replace(":", ".")\<close>: the computed \<open>record_name\<close> is not used.
\<close>

definition PandAName_validator :: "name_value \<Rightarrow> py_error + validator_outcome" where
  "PandAName_validator v =
     (case v of
        VStr s \<Rightarrow> assigns s
      | VEpicsName n \<Rightarrow>
          (case record_name_of n of
             Inl e \<Rightarrow> Inl e
           | Inr record_name \<Rightarrow> assigns (replace_char CHR '':'' CHR ''.'' n))
      | VPviName n \<Rightarrow> Inl NotImplementedError
      | VPandAName n \<Rightarrow> assigns n
      | VOther \<Rightarrow> Inl ValueError)"

definition PviName_validator :: "name_value \<Rightarrow> py_error + validator_outcome" where
  "PviName_validator v =
     (case v of
        VStr s \<Rightarrow> assigns s
      | VEpicsName n \<Rightarrow>
          (let relevant_section = last (split_on CHR '':'' n);
               words = split_on CHR ''_'' (replace_char CHR ''-'' CHR ''_'' relevant_section);
               capitalised_word = concat (map capitalize words)
           in case re_search_alnum capitalised_word of
                None \<Rightarrow> Inl AssertionError
              | Some formatted_word \<Rightarrow> assigns formatted_word)
      | VPviName n \<Rightarrow> assigns n
      | VPandAName n \<Rightarrow> Inl NotImplementedError
      | VOther \<Rightarrow> Inl ValueError)"

text \<open>
  Constructing a model with a \<open>mode="before"\<close> validator on its \<open>name\<close> field:
  pydantic runs the validator and validates the value it \<^emph>\<open>returns\<close> against the
  field, a \<open>str\<close> that matches the field's pattern; any other value is a validation
  error. A ValueError or AssertionError raised by the validator is reported as a
  validation error too; any other exception propagates.
\<close>

definition validate_name_field ::
  "(string \<Rightarrow> bool) \<Rightarrow> py_error + validator_outcome \<Rightarrow> py_error + string" where
  "validate_name_field pattern result =
     (case result of
        Inl e \<Rightarrow> if e = ValueError \<or> e = AssertionError then Inl ValidationError else Inl e
      | Inr outcome \<Rightarrow>
          (case returned outcome of
             ReturnNone \<Rightarrow> Inl ValidationError
           | ReturnStr s \<Rightarrow> if pattern s then Inr s else Inl ValidationError))"

definition PandAName_new :: "name_value \<Rightarrow> py_error + string" where
  "PandAName_new v = validate_name_field PandAName_pattern (PandAName_validator v)"

definition PviName_new :: "name_value \<Rightarrow> py_error + string" where
  "PviName_new v = validate_name_field PviName_pattern (PviName_validator v)"

text \<open>
  The grammar the specification gives for the device form: one or more segments
  \<open>[A-Za-z0-9]+\<close> joined by \<open>.\<close>.
\<close>

definition device_form_grammar :: "string \<Rightarrow> bool" where
  "device_form_grammar s = list_all (\<lambda>seg. seg \<noteq> [] \<and> list_all is_alnum seg) (split_on CHR ''.'' s)"

text \<open>
  The display form as the specification words it: the final colon-separated segment,
  split at the separators \<open>-\<close> and \<open>_\<close>, each word capitalised, the words joined, and
  only alphanumeric characters kept.
\<close>

definition display_form_spec :: "string \<Rightarrow> string" where
  "display_form_spec n =
     filter is_alnum
       (concat (map capitalize
          (split_where (\<lambda>c. c = CHR ''-'' \<or> c = CHR ''_'') (last (split_on CHR '':'' n)))))"

section \<open>Label count, string and description limits\<close>

text \<open>\<open>check_num_labels\<close>: the \<open>assert\<close> raises AssertionError when it fails.\<close>

definition check_num_labels :: "string list \<Rightarrow> string \<Rightarrow> py_error + unit" where
  "check_num_labels labels record_name =
     (if length labels \<le> 16 then Inr () else Inl AssertionError)"

text \<open>Calls of \<open>logging.error\<close> and \<open>logging.info\<close> are returned as a list of log records.\<close>

datatype log_level = ERROR | INFO

type_synonym log_record = "log_level \<times> string"

definition trim_string_value :: "string \<Rightarrow> string \<Rightarrow> string \<times> log_record list" where
  "trim_string_value val record_name =
     (if length val > 39
      then (take 39 val,
            [(ERROR, ''Value for '' @ record_name @
                     '' longer than EPICS limit of 40 characters.'' @
                     ''It will be truncated. Value: '' @ val)])
      else (val, []))"

text \<open>\<open>if description and len(description) > 39\<close>: \<open>None\<close> and the empty string are falsy.\<close>

definition trim_description :: "string option \<Rightarrow> string \<Rightarrow> string option \<times> log_record list" where
  "trim_description description record_name =
     (case description of
        None \<Rightarrow> (None, [])
      | Some d \<Rightarrow>
          if d \<noteq> [] \<and> length d > 39
          then (Some (take 39 d),
                [(INFO, ''Description for '' @ record_name @
                        '' longer than EPICS limit of '' @
                        ''40 characters. It will be truncated. Description: '' @ d)])
          else (Some d, []))"

section \<open>The record-info container\<close>

text \<open>
  Values of attributes whose Python type the dataclass does not enforce: \<open>None\<close>,
  booleans, lists of label strings, and any other object (a callable, a record wrapper,
  a field-info structure), named by an identifier.
\<close>

datatype py_value = PyNone | PyBool bool | PyStrList "string list" | PyObject nat

text \<open>
  The attributes of \<open>RecordInfo\<close>. \<open>record_attr\<close> is the attribute \<open>record\<close>,
  which has no default and is unset (here \<open>None\<close>) until \<open>add_record\<close> is called;
  \<open>pending_change\<close> and \<open>field_info\<close> are the attributes \<open>_pending_change\<close> and
  \<open>_field_info\<close>.
\<close>

record RecordInfo =
  record_attr :: "py_value option"
  data_type_func :: py_value
  labels :: py_value
  is_in_record :: py_value
  on_changes_func :: py_value
  pending_change :: py_value
  field_info :: py_value




definition add_record :: "RecordInfo \<Rightarrow> py_value \<Rightarrow> RecordInfo" where
  "add_record self r = self\<lparr>record_attr := Some r\<rparr>"

section \<open>The table codec\<close>

text \<open>
  The functions that pack and unpack a table are not among the source files of the
  repository (only the fixtures that hold packed and unpacked tables are). They are
  modelled here from section 4.2 of the specification, with the data model of its
  section 3. Words are natural numbers below \<open>2 ^ W\<close>; a table on the wire is a list of
  rows, each a list of words; the typed form is one column per field, in the order of
  the fields.
\<close>

text \<open>Modelled from the spec: the error kinds of the codec (section 7); the codec is missing from the sources.\<close>

datatype codec_error = FormatError | RangeError | ConfigurationError

text \<open>Modelled from the spec: the subtypes of a field (section 3, Field Metadata).\<close>

datatype subtype = UnsignedInt | SignedInt | Enumerated

text \<open>
  Modelled from the spec: one entry of the Field Metadata (section 3): name, inclusive
  bit range, subtype, optional labels and optional description.
\<close>

record field_metadata =
  field_name :: string
  bit_low :: nat
  bit_high :: nat
  field_subtype :: subtype
  enum_labels :: "string list option"
  field_description :: "string option"

text \<open>
  Modelled from the spec: an element of a Column Array (section 3): an integer for the
  unsigned and signed subtypes, a label string for an enumerated field.
\<close>

datatype cell = Number int | Label string

text \<open>Modelled from the spec: the width \<open>bit_high - bit_low + 1\<close> of a field (section 4.2, Unpack, step 2).\<close>

definition field_width :: "field_metadata \<Rightarrow> nat" where
  "field_width f = bit_high f - bit_low f + 1"

text \<open>
  Modelled from the spec: the number of words of a row,
  \<open>ceil((max bit_high + 1) / W)\<close> (section 4.2, Unpack, step 1).
\<close>

definition row_words :: "nat \<Rightarrow> field_metadata list \<Rightarrow> nat" where
  "row_words W fs = (foldr max (map bit_high fs) 0 + 1 + (W - 1)) div W"

text \<open>
  Modelled from the spec: the constraints on one field (section 3): \<open>low \<le> high\<close>,
  labels present exactly for an enumerated field, at most 16 of them. Section 4.2
  gives the extraction for a field inside one word and for a field that spans two
  consecutive words; a field is required to be one or the other.
\<close>

definition field_ok :: "nat \<Rightarrow> field_metadata \<Rightarrow> bool" where
  "field_ok W f =
     (bit_low f \<le> bit_high f \<and>
      bit_high f div W \<le> bit_low f div W + 1 \<and>
      (case enum_labels f of
         None \<Rightarrow> field_subtype f \<noteq> Enumerated
       | Some ls \<Rightarrow> field_subtype f = Enumerated \<and> length ls \<le> 16))"

text \<open>
  Modelled from the spec: no two fields of a table overlap (section 3, section 4.2
  invariant).
\<close>

fun ranges_disjoint :: "field_metadata list \<Rightarrow> bool" where
  "ranges_disjoint [] = True"
| "ranges_disjoint (f # fs) =
     (list_all (\<lambda>g. bit_high f < bit_low g \<or> bit_high g < bit_low f) fs \<and>
      ranges_disjoint fs)"

text \<open>
  Modelled from the spec: the validation done once when the Field Metadata is
  constructed (section 4.2, invariant; section 7, ConfigurationError): unique names,
  well-formed fields, no overlap.
\<close>

definition check_metadata :: "nat \<Rightarrow> field_metadata list \<Rightarrow> codec_error + unit" where
  "check_metadata W fs =
     (if distinct (map field_name fs) \<and> list_all (field_ok W) fs \<and> ranges_disjoint fs
      then Inr ()
      else Inl ConfigurationError)"

text \<open>
  Modelled from the spec: errors are returned as typed failures (section 7); a step
  applied to every element of a list stops at the first failure.
\<close>

fun traverse :: "('a \<Rightarrow> 'e + 'b) \<Rightarrow> 'a list \<Rightarrow> 'e + 'b list" where
  "traverse f [] = Inr []"
| "traverse f (x # xs) =
     (case f x of
        Inl e \<Rightarrow> Inl e
      | Inr y \<Rightarrow> (case traverse f xs of Inl e \<Rightarrow> Inl e | Inr ys \<Rightarrow> Inr (y # ys)))"

text \<open>Modelled from the spec: bit \<open>n\<close> of a row, which is bit \<open>n mod W\<close> of word \<open>n div W\<close> (section 3, Table Row Word Array).\<close>

definition row_bit :: "nat \<Rightarrow> nat list \<Rightarrow> nat \<Rightarrow> bool" where
  "row_bit W ws n = bit (ws ! (n div W)) (n mod W)"

text \<open>
  Modelled from the spec: section 4.2, Unpack, step 2. Inside one word: shift and
  mask. Across two consecutive words: the high bits of the first word combined with
  the low bits of the second, then masked to the width.
\<close>

definition extract_field :: "nat \<Rightarrow> nat list \<Rightarrow> nat \<Rightarrow> nat \<Rightarrow> nat" where
  "extract_field W ws lo hi =
     (let start_word = lo div W; end_word = hi div W;
          shift = lo mod W; width = hi - lo + 1
      in if start_word = end_word
         then drop_bit shift (ws ! start_word) AND mask width
         else (drop_bit shift (ws ! start_word) OR push_bit (W - shift) (ws ! end_word))
                AND mask width)"

text \<open>
  Modelled from the spec: section 4.2, Unpack, steps 3 and 4: sign extension by
  subtracting \<open>2 ^ width\<close> when the top bit is set; an enumerated code indexes the label
  list, and a code outside it is a decode error (RangeError in section 7).
\<close>

definition decode_value :: "field_metadata \<Rightarrow> nat \<Rightarrow> codec_error + cell" where
  "decode_value f v =
     (case field_subtype f of
        UnsignedInt \<Rightarrow> Inr (Number (int v))
      | SignedInt \<Rightarrow>
          Inr (Number (if bit v (field_width f - 1) then int v - 2 ^ field_width f else int v))
      | Enumerated \<Rightarrow>
          (case enum_labels f of
             None \<Rightarrow> Inl RangeError
           | Some ls \<Rightarrow> if v < length ls then Inr (Label (ls ! v)) else Inl RangeError))"

text \<open>
  Modelled from the spec: section 4.2, Unpack: the row word count is validated, then
  each field is extracted and decoded from each row, rows in their order.
\<close>

definition unpack :: "nat \<Rightarrow> field_metadata list \<Rightarrow> nat list list \<Rightarrow> codec_error + cell list list" where
  "unpack W fs rows =
     (if list_all (\<lambda>row. length row = row_words W fs) rows
      then traverse
             (\<lambda>f. traverse
                    (\<lambda>row. decode_value f (extract_field W row (bit_low f) (bit_high f)))
                    rows)
             fs
      else Inl FormatError)"

text \<open>Modelled from the spec: the first matching index of a label in the label list (section 4.2, Pack, step 1).\<close>

fun first_index :: "'a list \<Rightarrow> 'a \<Rightarrow> nat option" where
  "first_index [] x = None"
| "first_index (y # ys) x = (if y = x then Some 0 else map_option Suc (first_index ys x))"

text \<open>
  Modelled from the spec: section 4.2, Pack, steps 1 and 2: a label goes to its first
  index (an unknown label is a FormatError), a signed value is encoded in two's
  complement, and a value that does not fit the field's width is a range error. A cell
  of the wrong kind for the subtype is a FormatError.
\<close>

definition encode_value :: "field_metadata \<Rightarrow> cell \<Rightarrow> codec_error + nat" where
  "encode_value f c =
     (case field_subtype f of
        UnsignedInt \<Rightarrow>
          (case c of
             Number i \<Rightarrow> if 0 \<le> i \<and> i < 2 ^ field_width f then Inr (nat i) else Inl RangeError
           | Label l \<Rightarrow> Inl FormatError)
      | SignedInt \<Rightarrow>
          (case c of
             Number i \<Rightarrow>
               if - (2 ^ (field_width f - 1)) \<le> i \<and> i < 2 ^ (field_width f - 1)
               then Inr (nat (i mod 2 ^ field_width f))
               else Inl RangeError
           | Label l \<Rightarrow> Inl FormatError)
      | Enumerated \<Rightarrow>
          (case c of
             Number i \<Rightarrow> Inl FormatError
           | Label l \<Rightarrow>
               (case enum_labels f of
                  None \<Rightarrow> Inl FormatError
                | Some ls \<Rightarrow>
                    (case first_index ls l of
                       None \<Rightarrow> Inl FormatError
                     | Some k \<Rightarrow> if k < 2 ^ field_width f then Inr k else Inl RangeError))))"

text \<open>
  Modelled from the spec: section 4.2, Pack, step 3: the field's bits are ORed into
  the word, or split over the two consecutive words, symmetrically to the extraction.
\<close>

definition insert_field :: "nat \<Rightarrow> nat list \<Rightarrow> nat \<Rightarrow> nat \<Rightarrow> nat \<Rightarrow> nat list" where
  "insert_field W ws lo hi v =
     (let start_word = lo div W; end_word = hi div W; shift = lo mod W
      in if start_word = end_word
         then ws[start_word := ws ! start_word OR push_bit shift v]
         else (ws[start_word := ws ! start_word OR take_bit W (push_bit shift v)])
                [end_word := ws ! end_word OR drop_bit (W - shift) v])"

text \<open>Modelled from the spec: the encoded values of the fields ORed, one after the other, into a row of zero words (section 4.2, Pack, step 3).\<close>

definition insert_fields :: "nat \<Rightarrow> (field_metadata \<times> nat) list \<Rightarrow> nat list \<Rightarrow> nat list" where
  "insert_fields W fvs ws =
     fold (\<lambda>(f, v) ws. insert_field W ws (bit_low f) (bit_high f) v) fvs ws"

text \<open>Modelled from the spec: section 4.2, Pack, for one row: encode every cell, then build the row's words.\<close>

definition pack_row :: "nat \<Rightarrow> field_metadata list \<Rightarrow> cell list \<Rightarrow> codec_error + nat list" where
  "pack_row W fs cells =
     (case traverse (\<lambda>(f, c). encode_value f c) (zip fs cells) of
        Inl e \<Rightarrow> Inl e
      | Inr vs \<Rightarrow> Inr (insert_fields W (zip fs vs) (replicate (row_words W fs) 0)))"

text \<open>Modelled from the spec: the row count of a Column Array, the common length of its columns (section 3).\<close>

definition row_count :: "cell list list \<Rightarrow> nat" where
  "row_count cols = (case cols of [] \<Rightarrow> 0 | c # _ \<Rightarrow> length c)"

text \<open>
  Modelled from the spec: section 4.2, Pack: one column per field, all of the same
  length; one word array per row, rows in the order of the columns' elements.
\<close>

definition pack :: "nat \<Rightarrow> field_metadata list \<Rightarrow> cell list list \<Rightarrow> codec_error + nat list list" where
  "pack W fs cols =
     (if length cols = length fs \<and> list_all (\<lambda>c. length c = row_count cols) cols
      then traverse (\<lambda>r. pack_row W fs (map (\<lambda>c. c ! r) cols)) [0..<row_count cols]
      else Inl FormatError)"

text \<open>
  Modelled from the spec: a cell that respects its field's declared width and subtype
  (section 8, round trip): an unsigned value below \<open>2 ^ width\<close>, a signed value that
  fits in \<open>width\<close> signed bits, a label of the label list whose code fits the width.
\<close>

definition cell_ok :: "field_metadata \<Rightarrow> cell \<Rightarrow> bool" where
  "cell_ok f c =
     (case field_subtype f of
        UnsignedInt \<Rightarrow> (case c of Number i \<Rightarrow> 0 \<le> i \<and> i < 2 ^ field_width f | Label l \<Rightarrow> False)
      | SignedInt \<Rightarrow>
          (case c of
             Number i \<Rightarrow> - (2 ^ (field_width f - 1)) \<le> i \<and> i < 2 ^ (field_width f - 1)
           | Label l \<Rightarrow> False)
      | Enumerated \<Rightarrow>
          (case c of
             Number i \<Rightarrow> False
           | Label l \<Rightarrow>
               (case enum_labels f of
                  None \<Rightarrow> False
                | Some ls \<Rightarrow>
                    (case first_index ls l of
                       None \<Rightarrow> False
                     | Some k \<Rightarrow> k < 2 ^ field_width f))))"

text \<open>
  Modelled from the spec: a Column Array for the fields \<open>fs\<close> with \<open>R\<close> rows (section 3):
  one column per field, each of length \<open>R\<close>, every cell respecting its field.
\<close>

definition columns_ok :: "field_metadata list \<Rightarrow> nat \<Rightarrow> cell list list \<Rightarrow> bool" where
  "columns_ok fs R cols =
     (length cols = length fs \<and>
      list_all (\<lambda>(f, col). length col = R \<and> list_all (cell_ok f) col) (zip fs cols))"

text \<open>
  Modelled from the spec: a row sized per the metadata (section 3, Table Row Word
  Array): \<open>row_words\<close> words, each below \<open>2 ^ W\<close>.
\<close>

definition row_sized :: "nat \<Rightarrow> field_metadata list \<Rightarrow> nat list \<Rightarrow> bool" where
  "row_sized W fs row = (length row = row_words W fs \<and> list_all (\<lambda>w. w < 2 ^ W) row)"

text \<open>
  Modelled from the spec: what a row must satisfy further for packing to give it back:
  every bit that is set lies in the range of some field (the fields are all that
  packing writes), and the code of every enumerated field indexes its label list
  (section 4.2, Unpack, step 4).
\<close>

definition row_decodable :: "nat \<Rightarrow> field_metadata list \<Rightarrow> nat list \<Rightarrow> bool" where
  "row_decodable W fs row =
     (list_all
        (\<lambda>n. if row_bit W row n
             then list_ex (\<lambda>f. bit_low f \<le> n \<and> n \<le> bit_high f) fs
             else True)
        [0..<W * length row] \<and>
      list_all
        (\<lambda>f. case enum_labels f of
               None \<Rightarrow> True
             | Some ls \<Rightarrow> extract_field W row (bit_low f) (bit_high f) < length ls)
        fs)"

text \<open>Modelled from the spec: the labels of every enumerated field are pairwise different, so that a label names one code.\<close>

definition labels_distinct :: "field_metadata list \<Rightarrow> bool" where
  "labels_distinct fs =
     list_all (\<lambda>f. case enum_labels f of None \<Rightarrow> True | Some ls \<Rightarrow> distinct ls) fs"

text \<open>
  Modelled from the spec: an example table with 32-bit words (section 8): the REPEATS and
  TRIGGER fields of the fixtures, with the fixture's thirteen trigger labels, and a signed
  field on bits 28 to 35, which spans two words.
\<close>

definition example_fields :: "field_metadata list" where
  "example_fields =
     [\<lparr>field_name = ''REPEATS'', bit_low = 0, bit_high = 15, field_subtype = UnsignedInt,
       enum_labels = None, field_description = Some ''Number of times the line will repeat''\<rparr>,
      \<lparr>field_name = ''TRIGGER'', bit_low = 16, bit_high = 19, field_subtype = Enumerated,
       enum_labels = Some [''Immediate'', ''BITA=0'', ''BITA=1'', ''BITB=0'', ''BITB=1'',
         ''BITC=0'', ''BITC=1'', ''POSA>=POSITION'', ''POSA<=POSITION'', ''POSB>=POSITION'',
         ''POSB<=POSITION'', ''POSC>=POSITION'', ''POSC<=POSITION''],
       field_description = Some ''The trigger condition to start the phases''\<rparr>,
      \<lparr>field_name = ''POSITION'', bit_low = 28, bit_high = 35, field_subtype = SignedInt,
       enum_labels = None, field_description = None\<rparr>]"

text \<open>Modelled from the spec: two rows of the example table in typed form (section 3, Column Array).\<close>

definition example_columns :: "cell list list" where
  "example_columns =
     [[Number 5, Number 50000],
      [Label ''BITC=1'', Label ''Immediate''],
      [Number (- 5), Number 100]]"

text \<open>Modelled from the spec: the same two rows in wire form, two words per row (section 3, Table Row Word Array).\<close>

definition example_rows :: "nat list list" where
  "example_rows = [[2953183237, 15], [1073791824, 6]]"

text \<open>Modelled from the spec: a table with one unsigned field on bits 0 to 3.\<close>

definition nibble_field :: "field_metadata list" where
  "nibble_field =
     [\<lparr>field_name = ''A'', bit_low = 0, bit_high = 3, field_subtype = UnsignedInt,
       enum_labels = None, field_description = None\<rparr>]"

section \<open>Properties of the name classes\<close>

lemma dot_not_control_char:
  "\<not> (is_word CHR ''.'' \<or> CHR ''.'' = CHR '':'' \<or> CHR ''.'' = CHR ''-'')"
  by (simp add: is_word_def is_alnum_def is_digit_def lowers_def uppers_def)

lemma EpicsName_pattern_no_dot:
  assumes "EpicsName_pattern x"
  shows "CHR ''.'' \<notin> set x"
proof
  assume "CHR ''.'' \<in> set x"
  with assms have "is_word CHR ''.'' \<or> CHR ''.'' = CHR '':'' \<or> CHR ''.'' = CHR ''-''"
    unfolding EpicsName_pattern_def list_all_iff by blast
  with dot_not_control_char show False by blast
qed

lemma replace_char_inverse:
  assumes "b \<notin> set s"
  shows "replace_char b a (replace_char a b s) = s"
  using assms by (induction s) (auto simp: replace_char_def)

lemma record_name_of_colon:
  assumes "CHR '':'' \<in> set x" and "\<not> endswith x '':LABEL''"
  shows "\<exists>record_name. record_name_of x = Inr record_name"
  using assms by (simp add: record_name_of_def split_max1_def)

text \<open>
  For an ASCII name that does not end in \<open>:LABEL\<close> and has at least one colon, the
  strings the two validators assign to \<open>cls.name\<close> go to the device form and back
  unchanged. Both validators return \<open>None\<close>.
\<close>

lemma control_device_roundtrip:
  assumes "EpicsName_pattern x" and "CHR '':'' \<in> set x" and "\<not> endswith x '':LABEL''"
  shows "PandAName_validator (VEpicsName x) =
           Inr \<lparr>returned = ReturnNone, class_name = replace_char CHR '':'' CHR ''.'' x\<rparr>"
    and "EpicsName_init (VPandAName (replace_char CHR '':'' CHR ''.'' x)) =
           Inr \<lparr>returned = ReturnNone, class_name = x\<rparr>"
proof -
  from record_name_of_colon [OF assms(2,3)]
  obtain record_name where "record_name_of x = Inr record_name" ..
  then show "PandAName_validator (VEpicsName x) =
           Inr \<lparr>returned = ReturnNone, class_name = replace_char CHR '':'' CHR ''.'' x\<rparr>"
    by (simp add: PandAName_validator_def assigns_def)
  from EpicsName_pattern_no_dot [OF assms(1)]
  show "EpicsName_init (VPandAName (replace_char CHR '':'' CHR ''.'' x)) =
           Inr \<lparr>returned = ReturnNone, class_name = x\<rparr>"
    by (simp add: EpicsName_init_def assigns_def replace_char_inverse)
qed

text \<open>
  Whatever \<open>record_name\<close> is computed, the device form the validator assigns to an EPICS
  name is the name with its colons replaced by dots.
\<close>

lemma PandAName_validator_EpicsName:
  assumes "PandAName_validator (VEpicsName n) = Inr d"
  shows "class_name d = replace_char CHR '':'' CHR ''.'' n" and "returned d = ReturnNone"
  using assms by (auto simp: PandAName_validator_def assigns_def split: sum.splits)

text \<open>No validator returns a value: whenever a call raises nothing, it returns \<open>None\<close>.\<close>

lemma validators_return_None:
  "EpicsName_init v = Inr d \<Longrightarrow> returned d = ReturnNone"
  "PandAName_validator v = Inr d \<Longrightarrow> returned d = ReturnNone"
  "PviName_validator v = Inr d \<Longrightarrow> returned d = ReturnNone"
  by (auto simp: EpicsName_init_def PandAName_validator_def PviName_validator_def assigns_def
      Let_def split: name_value.splits sum.splits option.splits)

text \<open>So no construction through a validator yields a name.\<close>

lemma construction_never_succeeds:
  "PandAName_new v \<noteq> Inr s" and "PviName_new v \<noteq> Inr s"
proof -
  show "PandAName_new v \<noteq> Inr s"
    using validators_return_None(2) [of v]
    by (auto simp: PandAName_new_def validate_name_field_def split: sum.splits py_return.splits)
  show "PviName_new v \<noteq> Inr s"
    using validators_return_None(3) [of v]
    by (auto simp: PviName_new_def validate_name_field_def split: sum.splits py_return.splits)
qed

text \<open>
  C1. A control-form name ending in \<open>:LABEL\<close> should convert to the device form
  \<open>*METADATA.LABEL_<blockname>\<close>, so that \<open>PCAP1:LABEL\<close> and \<open>PCAP:LABEL\<close> both give
  \<open>*METADATA.LABEL_PCAP1\<close>. The validator computes exactly this string as
  \<open>record_name\<close>, but the name it assigns is \<open>value.name.replace(":", ".")\<close>:
  \<open>PCAP1.LABEL\<close> and \<open>PCAP.LABEL\<close>; what it returns is \<open>None\<close>.
\<close>

theorem label_record_name_discarded:
  "record_name_of ''PCAP1:LABEL'' = Inr ''*METADATA.LABEL_PCAP1'' \<and>
   record_name_of ''PCAP:LABEL'' = Inr ''*METADATA.LABEL_PCAP1'' \<and>
   PandAName_validator (VEpicsName ''PCAP1:LABEL'') =
     Inr \<lparr>returned = ReturnNone, class_name = ''PCAP1.LABEL''\<rparr> \<and>
   PandAName_validator (VEpicsName ''PCAP:LABEL'') =
     Inr \<lparr>returned = ReturnNone, class_name = ''PCAP.LABEL''\<rparr>"
  by code_simp

text \<open>
  C3. A valid control-form name that does not end in \<open>:LABEL\<close> should survive the
  conversion to device form and back. \<open>ABC\<close> is such a name, and the conversion to
  device form raises ValueError on it: unpacking \<open>field_name.split(":", maxsplit=1)\<close>
  into two variables needs a colon.
\<close>

theorem device_form_of_colonless_name_fails:
  "EpicsName_pattern ''ABC'' \<and> \<not> endswith ''ABC'' '':LABEL'' \<and>
   PandAName_validator (VEpicsName ''ABC'') = Inl ValueError"
  by code_simp

text \<open>
  C5. Converting a display-form name to control form or to device form fails: both
  validators raise NotImplementedError on a \<open>PviName\<close>, whatever its name, and so
  does the construction of a \<open>PandAName\<close>.
\<close>

theorem display_form_not_convertible:
  "EpicsName_init (VPviName n) = Inl NotImplementedError \<and>
   PandAName_validator (VPviName n) = Inl NotImplementedError \<and>
   PandAName_new (VPviName n) = Inl NotImplementedError"
  by (simp add: EpicsName_init_def PandAName_validator_def PandAName_new_def
      validate_name_field_def)

text \<open>A returned string is accepted for a \<open>PandAName\<close> exactly when it matches the field's pattern.\<close>

lemma PandAName_field_accepts:
  "validate_name_field PandAName_pattern (Inr \<lparr>returned = ReturnStr s, class_name = c\<rparr>) =
     (if PandAName_pattern s then Inr s else Inl ValidationError)"
  by (simp add: validate_name_field_def)

lemma split_where_no_separator:
  assumes "list_all (\<lambda>c. \<not> p c) s"
  shows "split_where p s = [s]"
  using assms by (induction s) auto

text \<open>Every string the pattern of \<open>PandAName\<close> admits is a device-form name of one segment.\<close>

lemma PandAName_pattern_in_grammar:
  assumes "PandAName_pattern s"
  shows "device_form_grammar s" and "CHR ''.'' \<notin> set s"
proof -
  have "\<not> is_alnum CHR ''.''"
    by (simp add: is_alnum_def is_digit_def lowers_def uppers_def)
  with assms show no_dot: "CHR ''.'' \<notin> set s"
    by (auto simp: PandAName_pattern_def list_all_iff)
  then have "split_where (\<lambda>c. c = CHR ''.'') s = [s]"
    by (intro split_where_no_separator) (auto simp: list_all_iff)
  with assms show "device_form_grammar s"
    by (simp add: device_form_grammar_def split_on_def PandAName_pattern_def)
qed

text \<open>
  C6. A device-form name should be constructed from a string exactly when the string is
  one or more segments \<open>[A-Za-z0-9]+\<close> joined by dots. \<open>SEQ1.TABLE\<close> is in that
  grammar, and its construction fails: the field's pattern \<open>^[A-Za-z0-9]+$\<close> admits no
  dot, so the string is refused even where it is the value handed to the field; and
  the validator hands over \<open>None\<close>.
\<close>

theorem dotted_device_name_rejected:
  "device_form_grammar ''SEQ1.TABLE'' \<and>
   PandAName_new (VStr ''SEQ1.TABLE'') = Inl ValidationError \<and>
   \<not> PandAName_pattern ''SEQ1.TABLE'' \<and>
   validate_name_field PandAName_pattern
     (Inr \<lparr>returned = ReturnStr ''SEQ1.TABLE'', class_name = ''SEQ1.TABLE''\<rparr>)
     = Inl ValidationError"
  by code_simp

section \<open>Properties of the limits\<close>

text \<open>
  C7. \<open>trim_string_value\<close> returns a value of at most 39 characters unchanged and logs
  nothing; a longer value is cut to its first 39 characters and one record is logged, at
  error severity. The function has no failing branch: its result is always a value.
\<close>

theorem trim_string_value_limit:
  "(length v \<le> 39 \<longrightarrow> trim_string_value v rn = (v, [])) \<and>
   (length v > 39 \<longrightarrow>
      fst (trim_string_value v rn) = take 39 v \<and>
      length (fst (trim_string_value v rn)) = 39 \<and>
      map fst (snd (trim_string_value v rn)) = [ERROR])"
  by (simp add: trim_string_value_def)

theorem trim_string_value_limit_witness:
  "fst (trim_string_value ''012345678901234567890123456789012345678901234'' ''TEST:STR'')
     = ''012345678901234567890123456789012345678'' \<and>
   length (fst (trim_string_value ''012345678901234567890123456789012345678901234'' ''TEST:STR'')) = 39 \<and>
   map fst (snd (trim_string_value ''012345678901234567890123456789012345678901234'' ''TEST:STR''))
     = [ERROR] \<and>
   trim_string_value ''short'' ''TEST:STR'' = (''short'', [])"
  using trim_string_value_limit [of "''012345678901234567890123456789012345678901234''" "''TEST:STR''"]
    trim_string_value_limit [of "''short''" "''TEST:STR''"]
  by simp

text \<open>
  C8. The label-count check fails for every list of more than 16 labels and succeeds
  for every list of at most 16.
\<close>

theorem check_num_labels_limit:
  "(length ls > 16 \<longrightarrow> check_num_labels ls rn = Inl AssertionError) \<and>
   (length ls \<le> 16 \<longrightarrow> check_num_labels ls rn = Inr ())"
  by (simp add: check_num_labels_def)

theorem check_num_labels_limit_witness:
  "check_num_labels (replicate 17 ''label'') ''SEQ1:TABLE'' = Inl AssertionError \<and>
   check_num_labels (replicate 16 ''label'') ''SEQ1:TABLE'' = Inr ()"
  using check_num_labels_limit [of "replicate 17 ''label''" "''SEQ1:TABLE''"]
    check_num_labels_limit [of "replicate 16 ''label''" "''SEQ1:TABLE''"]
  by simp

text \<open>
  C9. \<open>trim_description\<close> cuts a description of more than 39 characters to its first
  39 and logs one record (at info level); the value is returned, not rejected. A
  description of at most 39 characters is returned unchanged, with nothing logged.
\<close>

theorem trim_description_limit:
  "(length d > 39 \<longrightarrow>
      fst (trim_description (Some d) rn) = Some (take 39 d) \<and>
      map fst (snd (trim_description (Some d) rn)) = [INFO]) \<and>
   (length d \<le> 39 \<longrightarrow> trim_description (Some d) rn = (Some d, []))"
  by (auto simp: trim_description_def)

theorem trim_description_limit_witness:
  "fst (trim_description (Some ''The time the mandatory phase 2 should take'') ''SEQ1:TABLE'')
     = Some ''The time the mandatory phase 2 should t'' \<and>
   map fst (snd (trim_description (Some ''The time the mandatory phase 2 should take'') ''SEQ1:TABLE''))
     = [INFO] \<and>
   trim_description (Some ''Sequencer table of lines'') ''SEQ1:TABLE''
     = (Some ''Sequencer table of lines'', [])"
  using trim_description_limit [of "''The time the mandatory phase 2 should take''" "''SEQ1:TABLE''"]
    trim_description_limit [of "''Sequencer table of lines''" "''SEQ1:TABLE''"]
  by simp

section \<open>Properties of the record-info container\<close>






section \<open>The display form\<close>

lemma split_where_nonempty: "split_where p s \<noteq> []"
  by (induction s) (auto split: list.splits)

lemma split_where_chars_subset:
  "w \<in> set (split_where p s) \<Longrightarrow> set w \<subseteq> {c \<in> set s. \<not> p c}"
proof (induction s arbitrary: w)
  case Nil
  then show ?case by simp
next
  case (Cons a s)
  show ?case
  proof (cases "p a")
    case True
    with Cons.prems have "w = [] \<or> w \<in> set (split_where p s)" by simp
    with Cons.IH show ?thesis by auto
  next
    case False
    obtain v vs where vs: "split_where p s = v # vs"
      using split_where_nonempty [of p s] by (cases "split_where p s") auto
    with False Cons.prems have "w = a # v \<or> w \<in> set vs" by simp
    moreover from vs Cons.IH [of v] have "set v \<subseteq> {c \<in> set s. \<not> p c}" by simp
    moreover from vs Cons.IH have "w \<in> set vs \<Longrightarrow> set w \<subseteq> {c \<in> set s. \<not> p c}" by simp
    ultimately show ?thesis using False by auto
  qed
qed

lemma split_where_chars:
  assumes "w \<in> set (split_where p s)" and "c \<in> set w"
  shows "c \<in> set s \<and> \<not> p c"
  using split_where_chars_subset [OF assms(1)] assms(2) by blast

lemma concat_split_where: "concat (split_where p s) = filter (\<lambda>c. \<not> p c) s"
  by (induction s) (auto split: list.splits)

lemma split_replace_separators:
  "split_on CHR ''_'' (replace_char CHR ''-'' CHR ''_'' s) =
   split_where (\<lambda>c. c = CHR ''-'' \<or> c = CHR ''_'') s"
  by (induction s) (auto simp: split_on_def replace_char_def)

lemma upper_char_cases: "upper_char c \<in> set uppers \<or> upper_char c = c"
  by (auto simp: upper_char_def split: option.splits dest!: map_of_SomeD set_zip_rightD)

lemma lower_char_cases: "lower_char c \<in> set lowers \<or> lower_char c = c"
  by (auto simp: lower_char_def split: option.splits dest!: map_of_SomeD set_zip_rightD)

lemma is_alnum_upper_char: "is_alnum c \<Longrightarrow> is_alnum (upper_char c)"
  using upper_char_cases [of c] by (auto simp: is_alnum_def)

lemma is_alnum_lower_char: "is_alnum c \<Longrightarrow> is_alnum (lower_char c)"
  using lower_char_cases [of c] by (auto simp: is_alnum_def)

lemma capitalize_alnum:
  assumes "list_all is_alnum w"
  shows "list_all is_alnum (capitalize w)"
  using assms by (cases w) (auto simp: list_all_iff is_alnum_upper_char is_alnum_lower_char)

lemma capitalize_empty: "capitalize w = [] \<longleftrightarrow> w = []"
  by (cases w) auto

lemma re_search_alnum_all:
  assumes "list_all is_alnum s"
  shows "re_search_alnum s = (if s = [] then None else Some s)"
proof (cases s)
  case Nil
  then show ?thesis by (simp add: re_search_alnum_def)
next
  case (Cons c cs)
  with assms have "is_alnum c" and "takeWhile is_alnum (c # cs) = c # cs"
    by (auto simp: list_all_iff takeWhile_eq_all_conv)
  with Cons show ?thesis by (simp add: re_search_alnum_def)
qed

text \<open>The words of the final segment of a valid control-form name are alphanumeric.\<close>

lemma final_segment_words_alnum:
  assumes "EpicsName_pattern n"
    and "w \<in> set (split_where (\<lambda>c. c = CHR ''-'' \<or> c = CHR ''_'') (last (split_on CHR '':'' n)))"
  shows "list_all is_alnum w"
  unfolding list_all_iff
proof
  fix c assume "c \<in> set w"
  with assms(2) split_where_chars
  have c: "c \<in> set (last (split_on CHR '':'' n))" "\<not> (c = CHR ''-'' \<or> c = CHR ''_'')"
    by blast+
  have "last (split_on CHR '':'' n) \<in> set (split_on CHR '':'' n)"
    by (simp add: split_on_def split_where_nonempty)
  with c(1) have "c \<in> set n"
    unfolding split_on_def using split_where_chars by blast
  with assms(1) have "is_word c \<or> c = CHR '':'' \<or> c = CHR ''-''"
    unfolding EpicsName_pattern_def list_all_iff by blast
  moreover have "c \<noteq> CHR '':''"
    using c(1) \<open>last (split_on CHR '':'' n) \<in> set (split_on CHR '':'' n)\<close> split_where_chars
    unfolding split_on_def by blast
  ultimately show "is_alnum c"
    using c(2) by (auto simp: is_word_def)
qed

lemma concat_capitalize_empty:
  "concat (map capitalize ws) = [] \<longleftrightarrow> concat ws = []"
  by (induction ws) (auto simp: capitalize_empty)

lemma is_alnum_not_separator: "is_alnum c \<Longrightarrow> \<not> (c = CHR ''-'' \<or> c = CHR ''_'')"
  by (auto simp: is_alnum_def is_digit_def lowers_def uppers_def)

text \<open>
  The string \<open>PviName.validator\<close> assigns to \<open>cls.name\<close> for an ASCII control-form
  name: the display form of the specification, when the final colon-separated segment
  has an alphanumeric character; otherwise the validator's \<open>assert\<close> fails. In both
  cases no value is returned.
\<close>

lemma display_form_assigned:
  assumes "EpicsName_pattern n"
  shows "PviName_validator (VEpicsName n) =
           (if list_ex is_alnum (last (split_on CHR '':'' n))
            then Inr \<lparr>returned = ReturnNone, class_name = display_form_spec n\<rparr>
            else Inl AssertionError)"
proof -
  define seg where "seg = last (split_on CHR '':'' n)"
  define ws where "ws = split_where (\<lambda>c. c = CHR ''-'' \<or> c = CHR ''_'') seg"
  define cap where "cap = concat (map capitalize ws)"
  have words: "list_all is_alnum w" if "w \<in> set ws" for w
    using final_segment_words_alnum [OF assms] that unfolding ws_def seg_def by blast
  have cap_alnum: "list_all is_alnum cap"
    unfolding cap_def using words capitalize_alnum by (auto simp: list_all_iff)
  have code: "PviName_validator (VEpicsName n) =
      (case re_search_alnum cap of None \<Rightarrow> Inl AssertionError | Some m \<Rightarrow> assigns m)"
    by (simp add: PviName_validator_def Let_def split_replace_separators cap_def ws_def seg_def)
  have spec: "display_form_spec n = cap"
    using cap_alnum by (simp add: display_form_spec_def cap_def ws_def seg_def list_all_iff)
  have "cap = [] \<longleftrightarrow> filter (\<lambda>c. \<not> (c = CHR ''-'' \<or> c = CHR ''_'')) seg = []"
    unfolding cap_def ws_def concat_capitalize_empty concat_split_where ..
  also have "\<dots> \<longleftrightarrow> \<not> list_ex is_alnum seg"
  proof
    assume "filter (\<lambda>c. \<not> (c = CHR ''-'' \<or> c = CHR ''_'')) seg = []"
    then show "\<not> list_ex is_alnum seg"
      using is_alnum_not_separator by (auto simp: filter_empty_conv list_ex_iff)
  next
    assume no: "\<not> list_ex is_alnum seg"
    show "filter (\<lambda>c. \<not> (c = CHR ''-'' \<or> c = CHR ''_'')) seg = []"
      unfolding filter_empty_conv
    proof
      fix c assume c: "c \<in> set seg"
      show "\<not> \<not> (c = CHR ''-'' \<or> c = CHR ''_'')"
      proof
        assume ns: "\<not> (c = CHR ''-'' \<or> c = CHR ''_'')"
        have "c \<in> set (filter (\<lambda>c. \<not> (c = CHR ''-'' \<or> c = CHR ''_'')) seg)"
          using c ns by simp
        then have "c \<in> set (concat ws)"
          unfolding ws_def concat_split_where .
        then obtain w where "w \<in> set ws" "c \<in> set w" by auto
        with words have "is_alnum c" by (auto simp: list_all_iff)
        with no c show False by (auto simp: list_ex_iff)
      qed
    qed
  qed
  finally have empty: "cap = [] \<longleftrightarrow> \<not> list_ex is_alnum seg" .
  show ?thesis
    unfolding code spec re_search_alnum_all [OF cap_alnum]
    using empty by (simp add: seg_def assigns_def)
qed

text \<open>
  C4. The conversion of a control-form name to the display form should return the final
  colon-separated segment with the separators removed, each word capitalised and only
  alphanumeric characters kept: \<open>Table\<close> for \<open>SEQ1:TABLE\<close>. \<open>PviName.validator\<close>
  computes this string and assigns it to the class attribute \<open>cls.name\<close>, but has no
  \<open>return\<close> statement: it returns \<open>None\<close>, which is what the \<open>name\<close> field is then
  validated against, so the construction of the \<open>PviName\<close> fails and no display name is
  returned.
\<close>

theorem display_form_not_returned:
  "display_form_spec ''SEQ1:TABLE'' = ''Table'' \<and>
   PviName_validator (VEpicsName ''SEQ1:TABLE'') =
     Inr \<lparr>returned = ReturnNone, class_name = ''Table''\<rparr> \<and>
   PviName_new (VEpicsName ''SEQ1:TABLE'') = Inl ValidationError"
  by code_simp

section \<open>The table codec: bits of a row\<close>

lemma bit_above_bound:
  fixes x :: nat
  assumes "x < 2 ^ W" and "W \<le> n"
  shows "\<not> bit x n"
proof -
  from assms(2) have "(2::nat) ^ W \<le> 2 ^ n" by simp
  with assms(1) have "x < 2 ^ n" by (rule less_le_trans)
  then show ?thesis by (simp add: bit_iff_odd)
qed

lemma bound_from_bits:
  fixes x :: nat
  assumes "\<And>n. bit x n \<Longrightarrow> n < W"
  shows "x < 2 ^ W"
proof -
  have "take_bit W x = x"
    by (rule bit_eqI) (use assms in \<open>auto simp: bit_take_bit_iff\<close>)
  then show ?thesis by (simp add: take_bit_nat_eq_self_iff)
qed

lemma div_mod_decomp:
  fixes W :: nat
  assumes "r < W"
  shows "(q * W + r) div W = q" and "(q * W + r) mod W = r"
  using assms by simp_all

lemma pos_first_word:
  fixes W :: nat
  assumes "lo mod W + d < W"
  shows "(lo + d) div W = lo div W" and "(lo + d) mod W = lo mod W + d"
proof -
  have "lo + d = lo div W * W + (lo mod W + d)" by simp
  moreover have "(lo div W * W + (lo mod W + d)) div W = lo div W"
    using assms by (rule div_mod_decomp)
  moreover have "(lo div W * W + (lo mod W + d)) mod W = lo mod W + d"
    using assms by (rule div_mod_decomp)
  ultimately show "(lo + d) div W = lo div W" and "(lo + d) mod W = lo mod W + d"
    by simp_all
qed

lemma pos_next_word:
  fixes W :: nat
  assumes "0 < W" and "W \<le> lo mod W + d" and "lo + d \<le> hi" and "hi div W \<le> lo div W + 1"
  shows "(lo + d) div W = lo div W + 1" and "(lo + d) mod W = lo mod W + d - W"
proof -
  define q where "q = lo div W"
  define r where "r = lo mod W + d - W"
  have lo: "lo = q * W + lo mod W" by (simp add: q_def)
  have "hi div W * W + hi mod W = hi" by simp
  moreover have "hi mod W < W" using assms(1) by simp
  moreover have "hi div W * W \<le> (q + 1) * W"
    using assms(4) unfolding q_def by (rule mult_le_mono1)
  ultimately have hi: "hi < (q + 1) * W + W" by linarith
  have eq: "lo + d = (q + 1) * W + r"
    using lo assms(2) by (simp add: r_def algebra_simps)
  with hi assms(3) have r: "r < W" by linarith
  have "((q + 1) * W + r) div W = q + 1" using r by (rule div_mod_decomp)
  then show "(lo + d) div W = lo div W + 1" using eq by (simp add: q_def)
  have "((q + 1) * W + r) mod W = r" using r by (rule div_mod_decomp)
  then show "(lo + d) mod W = lo mod W + d - W" using eq by (simp add: r_def)
qed

lemma pos_same_word:
  fixes W :: nat
  assumes "0 < W" and "lo div W = hi div W" and "lo + d \<le> hi"
  shows "lo mod W + d < W"
proof -
  define q where "q = hi div W"
  have "q * W + lo mod W = lo" unfolding q_def assms(2) [symmetric] by simp
  moreover have "q * W + hi mod W = hi" unfolding q_def by simp
  moreover have "hi mod W < W" using assms(1) by simp
  ultimately show ?thesis using assms(3) by linarith
qed

lemma word_of_pos_in_range:
  fixes W :: nat
  assumes "0 < W" and "lo \<le> n" and "n \<le> hi" and "hi div W \<le> lo div W + 1"
  shows "n div W = lo div W \<or> n div W = hi div W"
proof -
  have "lo div W \<le> n div W" "n div W \<le> hi div W"
    using assms(2,3) by (simp_all add: div_le_mono)
  with assms(4) show ?thesis by linarith
qed

lemma same_word_offset:
  fixes W :: nat
  assumes "n div W = lo div W"
  shows "lo mod W \<le> n mod W \<longleftrightarrow> lo \<le> n" and "n mod W - lo mod W = n - lo"
proof -
  define q where "q = lo div W"
  have "q * W + lo mod W = lo" unfolding q_def by simp
  moreover have "q * W + n mod W = n" unfolding q_def assms [symmetric] by simp
  ultimately show "lo mod W \<le> n mod W \<longleftrightarrow> lo \<le> n" and "n mod W - lo mod W = n - lo"
    by linarith+
qed

lemma next_word_offset:
  fixes W :: nat
  assumes "0 < W" and "n div W = lo div W + 1"
  shows "lo \<le> n" and "n - lo = W - lo mod W + n mod W"
proof -
  define q where "q = lo div W"
  have lo: "q * W + lo mod W = lo" unfolding q_def by simp
  have "(q + 1) * W + n mod W = n" unfolding q_def assms(2) [symmetric] by simp
  then have n: "q * W + W + n mod W = n" by (simp add: algebra_simps)
  have s: "lo mod W < W" using assms(1) by simp
  from lo n s show "lo \<le> n" and "n - lo = W - lo mod W + n mod W"
    by linarith+
qed

lemma bit_in_width:
  fixes v :: nat
  assumes "v < 2 ^ w" and "bit v k"
  shows "k < w"
  using assms bit_above_bound [of v w k] by (cases "k < w") auto

text \<open>The bits of an extracted field are the bits of the row from \<open>lo\<close> to \<open>hi\<close>.\<close>

lemma bit_extract_field:
  assumes W: "0 < W" and le: "lo \<le> hi" and span: "hi div W \<le> lo div W + 1"
    and bound: "ws ! (lo div W) < 2 ^ W"
  shows "bit (extract_field W ws lo hi) k \<longleftrightarrow> k \<le> hi - lo \<and> row_bit W ws (lo + k)"
proof (cases "k \<le> hi - lo")
  case False
  then show ?thesis
    by (simp add: extract_field_def Let_def bit_and_iff bit_mask_iff)
next
  case True
  with le have in_range: "lo + k \<le> hi" by simp
  from True have kw: "k < hi - lo + 1" by simp
  show ?thesis
  proof (cases "lo div W = hi div W")
    case same: True
    from pos_same_word [OF W same in_range] have "lo mod W + k < W" .
    from pos_first_word [OF this] same kw True show ?thesis
      by (simp add: extract_field_def Let_def row_bit_def bit_and_iff bit_mask_iff bit_drop_bit_eq)
  next
    case other: False
    show ?thesis
    proof (cases "lo mod W + k < W")
      case first: True
      then have "\<not> W - lo mod W \<le> k" by simp
      with pos_first_word [OF first] other kw True show ?thesis
        by (simp add: extract_field_def Let_def row_bit_def bit_and_iff bit_or_iff
            bit_mask_iff bit_drop_bit_eq bit_push_bit_iff)
    next
      case second: False
      then have over: "W \<le> lo mod W + k" by simp
      from le have "lo div W \<le> hi div W" by (simp add: div_le_mono)
      with other span have hi: "hi div W = lo div W + 1" by simp
      have "lo mod W < W" using W by simp
      with over have "W - lo mod W \<le> k" and "k - (W - lo mod W) = lo mod W + k - W"
        by simp_all
      moreover have "\<not> bit (ws ! (lo div W)) (lo mod W + k)"
        using bound over by (rule bit_above_bound)
      ultimately show ?thesis
        using pos_next_word [OF W over in_range span] other kw True hi
        by (simp add: extract_field_def Let_def row_bit_def bit_and_iff bit_or_iff
            bit_mask_iff bit_drop_bit_eq bit_push_bit_iff)
    qed
  qed
qed

lemma extract_field_bound: "extract_field W ws lo hi < 2 ^ (hi - lo + 1)"
proof (rule bound_from_bits)
  fix n assume "bit (extract_field W ws lo hi) n"
  then show "n < hi - lo + 1"
    by (simp add: extract_field_def Let_def bit_and_iff bit_mask_iff split: if_splits)
qed

lemma length_insert_field: "length (insert_field W ws lo hi v) = length ws"
  by (simp add: insert_field_def Let_def)

text \<open>Inserting a field sets the bits of the value in the field's range and keeps every other bit.\<close>

lemma row_bit_insert_field:
  assumes W: "0 < W" and le: "lo \<le> hi" and span: "hi div W \<le> lo div W + 1"
    and len: "hi div W < length ws" and v: "v < 2 ^ (hi - lo + 1)"
    and n: "n div W < length ws"
  shows "row_bit W (insert_field W ws lo hi v) n \<longleftrightarrow>
           row_bit W ws n \<or> (lo \<le> n \<and> n \<le> hi \<and> bit v (n - lo))"
proof -
  have inside: "lo \<le> n \<and> n \<le> hi \<and> bit v (n - lo) \<longleftrightarrow> lo \<le> n \<and> bit v (n - lo)"
    using bit_in_width [OF v, of "n - lo"] le by auto
  from le have lohi: "lo div W \<le> hi div W" by (simp add: div_le_mono)
  with len have lo_len: "lo div W < length ws" by simp
  show ?thesis
  proof (cases "lo div W = hi div W")
    case same: True
    show ?thesis
    proof (cases "n div W = lo div W")
      case True
      with same_word_offset [OF True] same lo_len inside show ?thesis
        by (auto simp: insert_field_def Let_def row_bit_def bit_or_iff bit_push_bit_iff)
    next
      case False
      with word_of_pos_in_range [OF W _ _ span, of n] same
      have "\<not> (lo \<le> n \<and> n \<le> hi)" by auto
      with False same show ?thesis
        by (auto simp: insert_field_def Let_def row_bit_def)
    qed
  next
    case other: False
    with lohi span have hi: "hi div W = lo div W + 1" by simp
    have nW: "n mod W < W" using W by simp
    show ?thesis
    proof (cases "n div W = lo div W")
      case True
      with same_word_offset [OF True] hi lo_len len inside nW show ?thesis
        by (auto simp: insert_field_def Let_def row_bit_def bit_or_iff bit_push_bit_iff
            bit_take_bit_iff)
    next
      case not_first: False
      show ?thesis
      proof (cases "n div W = hi div W")
        case True
        with hi have "n div W = lo div W + 1" by simp
        from next_word_offset [OF W this] True hi len inside show ?thesis
          by (simp add: insert_field_def Let_def row_bit_def bit_or_iff bit_drop_bit_eq)
      next
        case False
        with not_first word_of_pos_in_range [OF W _ _ span, of n]
        have "\<not> (lo \<le> n \<and> n \<le> hi)" by auto
        with False not_first hi show ?thesis
          by (auto simp: insert_field_def Let_def row_bit_def)
      qed
    qed
  qed
qed

lemma insert_field_bounded:
  assumes W: "0 < W" and le: "lo \<le> hi" and span: "hi div W \<le> lo div W + 1"
    and len: "hi div W < length ws" and v: "v < 2 ^ (hi - lo + 1)"
    and ws: "list_all (\<lambda>w. w < 2 ^ W) ws"
  shows "list_all (\<lambda>w. w < 2 ^ W) (insert_field W ws lo hi v)"
proof -
  from le have lohi: "lo div W \<le> hi div W" by (simp add: div_le_mono)
  with len have lo_len: "lo div W < length ws" by simp
  from ws lo_len have a: "ws ! (lo div W) < 2 ^ W" by (simp add: list_all_length)
  from ws len have b: "ws ! (hi div W) < 2 ^ W" by (simp add: list_all_length)
  have upd: "list_all (\<lambda>w. w < 2 ^ W) (xs[i := x])"
    if "list_all (\<lambda>w. w < 2 ^ W) xs" and "x < 2 ^ W" for xs :: "nat list" and i x
    using that set_update_subset_insert [of xs i x] by (auto simp: list_all_iff)
  show ?thesis
  proof (cases "lo div W = hi div W")
    case same: True
    from le have "lo + (hi - lo) \<le> hi" by simp
    from pos_same_word [OF W same this] have fit: "lo mod W + (hi - lo) < W" .
    have "ws ! (lo div W) OR push_bit (lo mod W) v < 2 ^ W"
    proof (rule bound_from_bits)
      fix j assume "bit (ws ! (lo div W) OR push_bit (lo mod W) v) j"
      then consider "bit (ws ! (lo div W)) j" | "lo mod W \<le> j" "bit v (j - lo mod W)"
        by (auto simp: bit_or_iff bit_push_bit_iff)
      then show "j < W"
      proof cases
        case 1
        with a show ?thesis by (rule bit_in_width)
      next
        case 2
        from bit_in_width [OF v 2(2)] 2(1) fit show ?thesis by simp
      qed
    qed
    with same ws show ?thesis
      by (simp add: insert_field_def Let_def upd)
  next
    case other: False
    with lohi span have hi: "hi div W = lo div W + 1" by simp
    have first: "ws ! (lo div W) OR take_bit W (push_bit (lo mod W) v) < 2 ^ W"
    proof (rule bound_from_bits)
      fix j assume "bit (ws ! (lo div W) OR take_bit W (push_bit (lo mod W) v)) j"
      then consider "bit (ws ! (lo div W)) j" | "j < W"
        by (auto simp: bit_or_iff bit_take_bit_iff)
      then show "j < W"
      proof cases
        case 1
        with a show ?thesis by (rule bit_in_width)
      next
        case 2
        then show ?thesis .
      qed
    qed
    have over: "W \<le> lo mod W + (hi - lo)"
    proof (rule ccontr)
      assume "\<not> W \<le> lo mod W + (hi - lo)"
      then have "lo mod W + (hi - lo) < W" by simp
      from pos_first_word(1) [OF this] le other show False by simp
    qed
    from le have "lo + (hi - lo) \<le> hi" by simp
    from pos_next_word(2) [OF W over this span] le
    have "hi mod W = lo mod W + (hi - lo) - W" by simp
    moreover have "hi mod W < W" using W by simp
    ultimately have fit: "lo mod W + (hi - lo) - W < W" by simp
    have second: "ws ! (hi div W) OR drop_bit (W - lo mod W) v < 2 ^ W"
    proof (rule bound_from_bits)
      fix j assume "bit (ws ! (hi div W) OR drop_bit (W - lo mod W) v) j"
      then consider "bit (ws ! (hi div W)) j" | "bit v (W - lo mod W + j)"
        by (auto simp: bit_or_iff bit_drop_bit_eq)
      then show "j < W"
      proof cases
        case 1
        with b show ?thesis by (rule bit_in_width)
      next
        case 2
        from bit_in_width [OF v 2] fit show ?thesis by simp
      qed
    qed
    from other ws first second show ?thesis
      by (simp add: insert_field_def Let_def upd)
  qed
qed

section \<open>Field metadata, values and rows\<close>

lemma ranges_disjoint_pair:
  assumes "ranges_disjoint fs" and "f \<in> set fs" and "g \<in> set fs" and "f \<noteq> g"
  shows "bit_high f < bit_low g \<or> bit_high g < bit_low f"
  using assms by (induction fs) (auto simp: list_all_iff)

lemma check_metadata_facts:
  assumes "check_metadata W fs = Inr ()"
  shows "distinct fs" and "list_all (field_ok W) fs" and "ranges_disjoint fs"
proof -
  from assms have d: "distinct (map field_name fs)"
    and ok: "list_all (field_ok W) fs" and r: "ranges_disjoint fs"
    by (simp_all add: check_metadata_def split: if_splits)
  from d show "distinct fs" by (rule distinct_map [THEN iffD1, THEN conjunct1])
  from ok show "list_all (field_ok W) fs" .
  from r show "ranges_disjoint fs" .
qed

lemma foldr_max_ge:
  fixes xs :: "nat list"
  assumes "x \<in> set xs"
  shows "x \<le> foldr max xs 0"
  using assms by (induction xs) auto

lemma bit_high_in_row:
  assumes "0 < W" and "f \<in> set fs"
  shows "bit_high f div W < row_words W fs"
proof -
  define M where "M = foldr max (map bit_high fs) 0"
  from assms(2) have "bit_high f \<le> M"
    unfolding M_def by (intro foldr_max_ge) simp
  then have "bit_high f div W \<le> M div W" by (rule div_le_mono)
  also have "M div W < M div W + 1" by simp
  also have "M div W + 1 = (M + W) div W" using assms(1) div_add_self2 [of W M] by simp
  also have "M + W = M + 1 + (W - 1)" using assms(1) by simp
  finally show ?thesis
    by (simp add: row_words_def M_def)
qed

lemma field_ok_facts:
  assumes "field_ok W f"
  shows "bit_low f \<le> bit_high f" and "bit_high f div W \<le> bit_low f div W + 1"
    and "field_subtype f = Enumerated \<longleftrightarrow> enum_labels f \<noteq> None"
  using assms by (auto simp: field_ok_def split: option.splits)

subsection \<open>Encoding and decoding one value\<close>

lemma first_index_Some:
  assumes "first_index xs x = Some k"
  shows "k < length xs \<and> xs ! k = x"
  using assms by (induction xs arbitrary: k) (auto split: if_splits)

lemma first_index_nth:
  assumes "distinct xs" and "k < length xs"
  shows "first_index xs (xs ! k) = Some k"
  using assms
proof (induction xs arbitrary: k)
  case Nil
  then show ?case by simp
next
  case (Cons y ys)
  then show ?case by (cases k) auto
qed

lemma top_bit_iff:
  fixes v :: nat
  assumes "v < 2 ^ Suc n"
  shows "bit v n \<longleftrightarrow> 2 ^ n \<le> v"
proof (cases "v < 2 ^ n")
  case True
  then show ?thesis using bit_above_bound [of v n n] by simp
next
  case False
  then have ge: "2 ^ n \<le> v" by simp
  from assms have "v < 2 ^ n * 2" by simp
  then have "v div 2 ^ n < 2" by (simp add: less_mult_imp_div_less mult.commute)
  moreover from ge have "0 < v div 2 ^ n" by (simp add: div_greater_zero_iff)
  ultimately have "v div 2 ^ n = 1" by simp
  with ge show ?thesis by (simp add: bit_iff_odd)
qed

lemma top_bit_int:
  fixes v :: nat
  assumes "v < 2 * 2 ^ w"
  shows "bit v w \<longleftrightarrow> 2 ^ w \<le> int v"
proof -
  from assms have "v < 2 ^ Suc w" by simp
  then have "bit v w \<longleftrightarrow> 2 ^ w \<le> v" by (rule top_bit_iff)
  also have "\<dots> \<longleftrightarrow> int (2 ^ w) \<le> int v" by (simp only: of_nat_le_iff)
  finally show ?thesis by simp
qed

lemma mod_twos_complement:
  fixes i H :: int
  assumes "- H \<le> i" and "i < H"
  shows "i mod (2 * H) = (if 0 \<le> i then i else i + 2 * H)"
proof (cases "0 \<le> i")
  case True
  with assms(2) have "i mod (2 * H) = i" by (intro mod_pos_pos_trivial) linarith+
  with True show ?thesis by simp
next
  case False
  with assms(1) have "(i + 2 * H) mod (2 * H) = i + 2 * H"
    by (intro mod_pos_pos_trivial) linarith+
  moreover have "(i + 2 * H) mod (2 * H) = i mod (2 * H)" by simp
  ultimately show ?thesis using False by simp
qed

lemma decode_encode_value:
  assumes ok: "field_ok W f" and c: "cell_ok f c"
  shows "\<exists>v. encode_value f c = Inr v \<and> v < 2 ^ field_width f \<and> decode_value f v = Inr c"
proof (cases "field_subtype f")
  case UnsignedInt
  with c obtain i where i: "c = Number i" "0 \<le> i" "i < 2 ^ field_width f"
    by (auto simp: cell_ok_def split: cell.splits)
  from i(2,3) have "nat i < 2 ^ field_width f"
    by (simp add: nat_less_iff)
  with UnsignedInt i show ?thesis
    by (simp add: encode_value_def decode_value_def)
next
  case SignedInt
  define w where "w = field_width f - 1"
  have width: "field_width f = Suc w" by (simp add: w_def field_width_def)
  from SignedInt c obtain i where i: "c = Number i" "- (2 ^ w) \<le> i" "i < 2 ^ w"
    by (auto simp: cell_ok_def w_def split: cell.splits)
  define v where "v = nat (i mod (2 * 2 ^ w))"
  have m: "i mod (2 * 2 ^ w) = (if 0 \<le> i then i else i + 2 * 2 ^ w)"
    using i(2,3) by (rule mod_twos_complement)
  have v_int: "int v = (if 0 \<le> i then i else i + 2 * 2 ^ w)"
    unfolding v_def m using i(2) by simp
  with i(3) have "int v < int (2 * 2 ^ w)" by (simp split: if_splits)
  then have v_bound: "v < 2 * 2 ^ w" by (simp only: of_nat_less_iff)
  have enc: "encode_value f c = Inr v"
    using SignedInt i by (simp add: encode_value_def width v_def)
  have "(if bit v w then int v - 2 * 2 ^ w else int v) = i"
    unfolding top_bit_int [OF v_bound] v_int using i(2,3) by (simp split: if_splits)
  with SignedInt i(1) have "decode_value f v = Inr c"
    by (auto simp: decode_value_def width split: if_splits)
  with enc v_bound width show ?thesis by auto
next
  case Enumerated
  with c obtain l ls k where l: "c = Label l" "enum_labels f = Some ls"
    "first_index ls l = Some k" "k < 2 ^ field_width f"
    by (auto simp: cell_ok_def split: cell.splits option.splits)
  from first_index_Some [OF l(3)] Enumerated l show ?thesis
    by (simp add: encode_value_def decode_value_def)
qed

lemma encode_decode_value:
  assumes ok: "field_ok W f" and v: "v < 2 ^ field_width f"
    and labels: "case enum_labels f of None \<Rightarrow> True | Some ls \<Rightarrow> v < length ls \<and> distinct ls"
  shows "\<exists>c. decode_value f v = Inr c \<and> encode_value f c = Inr v"
proof (cases "field_subtype f")
  case UnsignedInt
  from v have "int v < int (2 ^ field_width f)" by (simp only: of_nat_less_iff)
  with UnsignedInt show ?thesis
    by (simp add: encode_value_def decode_value_def)
next
  case SignedInt
  define w where "w = field_width f - 1"
  have width: "field_width f = Suc w" by (simp add: w_def field_width_def)
  from v have v_bound: "v < 2 * 2 ^ w" by (simp add: width)
  then have "int v < int (2 * 2 ^ w)" by (simp only: of_nat_less_iff)
  then have iv: "int v < 2 * 2 ^ w" by simp
  define i where "i = (if bit v w then int v - 2 * 2 ^ w else int v)"
  have dec: "decode_value f v = Inr (Number i)"
    using SignedInt by (simp add: decode_value_def width i_def)
  have range: "- (2 ^ w) \<le> i \<and> i < 2 ^ w"
    unfolding i_def top_bit_int [OF v_bound] using iv by (simp split: if_splits)
  then have "i mod (2 * 2 ^ w) = (if 0 \<le> i then i else i + 2 * 2 ^ w)"
    by (intro mod_twos_complement) simp_all
  also have "\<dots> = int v"
    unfolding i_def top_bit_int [OF v_bound] using iv by (simp split: if_splits)
  finally have "nat (i mod (2 * 2 ^ w)) = v" by simp
  with SignedInt range have "encode_value f (Number i) = Inr v"
    by (simp add: encode_value_def width)
  with dec show ?thesis by auto
next
  case Enumerated
  with field_ok_facts(3) [OF ok] obtain ls where ls: "enum_labels f = Some ls" by auto
  with labels have "v < length ls" "distinct ls" by simp_all
  with first_index_nth [of ls v] Enumerated ls v show ?thesis
    by (simp add: encode_value_def decode_value_def)
qed

subsection \<open>Applying a fallible step to a list\<close>

lemma traverse_map:
  assumes "\<And>x. x \<in> set xs \<Longrightarrow> f x = Inr (g x)"
  shows "traverse f xs = Inr (map g xs)"
  using assms by (induction xs) auto

lemma traverse_nth:
  assumes "length ys = length xs" and "\<And>i. i < length xs \<Longrightarrow> f (xs ! i) = Inr (ys ! i)"
  shows "traverse f xs = Inr ys"
  using assms
proof (induction xs arbitrary: ys)
  case Nil
  then show ?case by simp
next
  case (Cons x xs)
  then obtain y ys' where ys: "ys = y # ys'" by (cases ys) auto
  from Cons.prems(2) [of 0] ys have "f x = Inr y" by simp
  moreover have "traverse f xs = Inr ys'"
  proof (rule Cons.IH)
    show "length ys' = length xs" using Cons.prems(1) ys by simp
    fix i assume "i < length xs"
    with Cons.prems(2) [of "Suc i"] ys show "f (xs ! i) = Inr (ys' ! i)" by simp
  qed
  ultimately show ?case using ys by simp
qed

subsection \<open>Building a row\<close>

lemma insert_fields_Nil: "insert_fields W [] ws = ws"
  by (simp add: insert_fields_def)

lemma insert_fields_Cons:
  "insert_fields W ((f, v) # fvs) ws =
     insert_fields W fvs (insert_field W ws (bit_low f) (bit_high f) v)"
  by (simp add: insert_fields_def)

lemma length_insert_fields: "length (insert_fields W fvs ws) = length ws"
proof (induction fvs arbitrary: ws)
  case Nil
  show ?case by (simp add: insert_fields_Nil)
next
  case (Cons p fvs)
  then show ?case
    by (cases p) (simp add: insert_fields_Cons length_insert_field)
qed

lemma row_bit_insert_fields:
  assumes W: "0 < W"
    and fits: "\<And>f v. (f, v) \<in> set fvs \<Longrightarrow>
        bit_low f \<le> bit_high f \<and> bit_high f div W \<le> bit_low f div W + 1 \<and>
        bit_high f div W < length ws \<and> v < 2 ^ (bit_high f - bit_low f + 1)"
    and n: "n div W < length ws"
  shows "row_bit W (insert_fields W fvs ws) n \<longleftrightarrow>
           row_bit W ws n \<or>
           (\<exists>(f, v) \<in> set fvs. bit_low f \<le> n \<and> n \<le> bit_high f \<and> bit v (n - bit_low f))"
  using fits n
proof (induction fvs arbitrary: ws)
  case Nil
  show ?case by (simp add: insert_fields_Nil)
next
  case (Cons p fvs)
  obtain f v where p: "p = (f, v)" by (cases p)
  define ws' where "ws' = insert_field W ws (bit_low f) (bit_high f) v"
  have len: "length ws' = length ws" by (simp add: ws'_def length_insert_field)
  from Cons.prems(1) [of f v] p
  have f: "bit_low f \<le> bit_high f" "bit_high f div W \<le> bit_low f div W + 1"
    "bit_high f div W < length ws" "v < 2 ^ (bit_high f - bit_low f + 1)"
    by simp_all
  have step: "row_bit W ws' n \<longleftrightarrow>
      row_bit W ws n \<or> (bit_low f \<le> n \<and> n \<le> bit_high f \<and> bit v (n - bit_low f))"
    unfolding ws'_def using W f Cons.prems(2) by (rule row_bit_insert_field)
  have "row_bit W (insert_fields W fvs ws') n \<longleftrightarrow>
      row_bit W ws' n \<or>
      (\<exists>(f, v) \<in> set fvs. bit_low f \<le> n \<and> n \<le> bit_high f \<and> bit v (n - bit_low f))"
  proof (rule Cons.IH)
    fix g u assume "(g, u) \<in> set fvs"
    with Cons.prems(1) [of g u] len
    show "bit_low g \<le> bit_high g \<and> bit_high g div W \<le> bit_low g div W + 1 \<and>
        bit_high g div W < length ws' \<and> u < 2 ^ (bit_high g - bit_low g + 1)"
      by simp
  next
    show "n div W < length ws'" using Cons.prems(2) len by simp
  qed
  with step show ?case
    unfolding p insert_fields_Cons ws'_def [symmetric] by auto
qed

lemma insert_fields_bounded:
  assumes W: "0 < W"
    and fits: "\<And>f v. (f, v) \<in> set fvs \<Longrightarrow>
        bit_low f \<le> bit_high f \<and> bit_high f div W \<le> bit_low f div W + 1 \<and>
        bit_high f div W < length ws \<and> v < 2 ^ (bit_high f - bit_low f + 1)"
    and ws: "list_all (\<lambda>w. w < 2 ^ W) ws"
  shows "list_all (\<lambda>w. w < 2 ^ W) (insert_fields W fvs ws)"
  using fits ws
proof (induction fvs arbitrary: ws)
  case Nil
  then show ?case by (simp add: insert_fields_Nil)
next
  case (Cons p fvs)
  obtain f v where p: "p = (f, v)" by (cases p)
  define ws' where "ws' = insert_field W ws (bit_low f) (bit_high f) v"
  have len: "length ws' = length ws" by (simp add: ws'_def length_insert_field)
  from Cons.prems(1) [of f v] p
  have f: "bit_low f \<le> bit_high f" "bit_high f div W \<le> bit_low f div W + 1"
    "bit_high f div W < length ws" "v < 2 ^ (bit_high f - bit_low f + 1)"
    by simp_all
  have step: "list_all (\<lambda>w. w < 2 ^ W) ws'"
    unfolding ws'_def using W f Cons.prems(2) by (rule insert_field_bounded)
  have "list_all (\<lambda>w. w < 2 ^ W) (insert_fields W fvs ws')"
  proof (rule Cons.IH)
    fix g u assume "(g, u) \<in> set fvs"
    with Cons.prems(1) [of g u] len
    show "bit_low g \<le> bit_high g \<and> bit_high g div W \<le> bit_low g div W + 1 \<and>
        bit_high g div W < length ws' \<and> u < 2 ^ (bit_high g - bit_low g + 1)"
      by simp
  next
    show "list_all (\<lambda>w. w < 2 ^ W) ws'" by (rule step)
  qed
  then show ?case
    unfolding p insert_fields_Cons ws'_def [symmetric] .
qed

lemma row_bit_zero: "n div W < m \<Longrightarrow> \<not> row_bit W (replicate m 0) n"
  by (simp add: row_bit_def)

text \<open>Two rows of the same length with words below \<open>2 ^ W\<close> and the same bits are equal.\<close>

lemma rows_equal:
  assumes W: "0 < W" and len: "length xs = length ys"
    and xs: "list_all (\<lambda>w. w < 2 ^ W) xs" and ys: "list_all (\<lambda>w. w < 2 ^ W) ys"
    and bits: "\<And>n. n div W < length xs \<Longrightarrow> row_bit W xs n \<longleftrightarrow> row_bit W ys n"
  shows "xs = ys"
proof (rule nth_equalityI [OF len])
  fix i assume i: "i < length xs"
  with xs have x: "xs ! i < 2 ^ W" by (simp add: list_all_length)
  from i len ys have y: "ys ! i < 2 ^ W" by (simp add: list_all_length)
  show "xs ! i = ys ! i"
  proof (rule bit_eqI)
    fix j
    show "bit (xs ! i) j \<longleftrightarrow> bit (ys ! i) j"
    proof (cases "j < W")
      case True
      then have "(i * W + j) div W = i" "(i * W + j) mod W = j"
        by (rule div_mod_decomp)+
      with bits [of "i * W + j"] i show ?thesis
        by (simp add: row_bit_def)
    next
      case False
      then have "W \<le> j" by simp
      with x y bit_above_bound show ?thesis by blast
    qed
  qed
qed

lemma zip_fields_fit:
  assumes W: "0 < W" and ok: "list_all (field_ok W) fs"
    and len: "length vs = length fs"
    and vs: "\<And>i. i < length fs \<Longrightarrow> vs ! i < 2 ^ field_width (fs ! i)"
    and mem: "(f, v) \<in> set (zip fs vs)"
  shows "bit_low f \<le> bit_high f \<and> bit_high f div W \<le> bit_low f div W + 1 \<and>
         bit_high f div W < length (replicate (row_words W fs) (0::nat)) \<and>
         v < 2 ^ (bit_high f - bit_low f + 1)"
proof -
  from mem obtain i where i: "i < length fs" "f = fs ! i" "v = vs ! i"
    by (auto simp: in_set_zip)
  then have f: "f \<in> set fs" by simp
  with ok have "field_ok W f" by (simp add: list_all_iff)
  from field_ok_facts(1,2) [OF this] bit_high_in_row [OF W f] vs [OF i(1)] i
  show ?thesis by (simp add: field_width_def)
qed

text \<open>Extracting a field from the row built from the values of all fields gives its value back.\<close>

lemma extract_insert_fields:
  assumes W: "0 < W" and dist: "distinct fs" and ok: "list_all (field_ok W) fs"
    and disj: "ranges_disjoint fs" and len: "length vs = length fs"
    and vs: "\<And>i. i < length fs \<Longrightarrow> vs ! i < 2 ^ field_width (fs ! i)"
    and i: "i < length fs"
  shows "extract_field W (insert_fields W (zip fs vs) (replicate (row_words W fs) 0))
           (bit_low (fs ! i)) (bit_high (fs ! i)) = vs ! i"
proof -
  define zeros :: "nat list" where "zeros = replicate (row_words W fs) 0"
  define row where "row = insert_fields W (zip fs vs) zeros"
  define lo where "lo = bit_low (fs ! i)"
  define hi where "hi = bit_high (fs ! i)"
  have fit: "bit_low f \<le> bit_high f \<and> bit_high f div W \<le> bit_low f div W + 1 \<and>
         bit_high f div W < length zeros \<and> v < 2 ^ (bit_high f - bit_low f + 1)"
    if "(f, v) \<in> set (zip fs vs)" for f v
    unfolding zeros_def using W ok len vs that by (rule zip_fields_fit)
  have row_len: "length row = row_words W fs"
    by (simp add: row_def zeros_def length_insert_fields)
  have "list_all (\<lambda>w. w < 2 ^ W) zeros" by (simp add: zeros_def list_all_iff)
  with W fit have bounded: "list_all (\<lambda>w. w < 2 ^ W) row"
    unfolding row_def by (intro insert_fields_bounded) auto
  from i have fi: "fs ! i \<in> set fs" by simp
  with ok have "field_ok W (fs ! i)" by (simp add: list_all_iff)
  from field_ok_facts(1,2) [OF this]
  have le: "lo \<le> hi" and span: "hi div W \<le> lo div W + 1" by (simp_all add: lo_def hi_def)
  have hi_row: "hi div W < row_words W fs"
    unfolding hi_def using W fi by (rule bit_high_in_row)
  from le have "lo div W \<le> hi div W" by (simp add: div_le_mono)
  with hi_row bounded row_len have word: "row ! (lo div W) < 2 ^ W"
    by (simp add: list_all_length)
  have vi: "vs ! i < 2 ^ (hi - lo + 1)"
    using vs [OF i] by (simp add: field_width_def lo_def hi_def)
  have "extract_field W row lo hi = vs ! i"
  proof (rule bit_eqI)
    fix k
    have "bit (extract_field W row lo hi) k \<longleftrightarrow> k \<le> hi - lo \<and> row_bit W row (lo + k)"
      using W le span word by (rule bit_extract_field)
    also have "\<dots> \<longleftrightarrow> bit (vs ! i) k"
    proof (cases "k \<le> hi - lo")
      case False
      then have "\<not> k < hi - lo + 1" by simp
      with bit_in_width [OF vi] False show ?thesis by blast
    next
      case True
      with le have in_range: "lo + k \<le> hi" by simp
      then have "(lo + k) div W \<le> hi div W" by (rule div_le_mono)
      with hi_row have pos: "(lo + k) div W < length zeros" by (simp add: zeros_def)
      have A: "row_bit W row (lo + k) \<longleftrightarrow>
          row_bit W zeros (lo + k) \<or>
          (\<exists>(f, v) \<in> set (zip fs vs).
              bit_low f \<le> lo + k \<and> lo + k \<le> bit_high f \<and> bit v (lo + k - bit_low f))"
        unfolding row_def using W fit pos by (rule row_bit_insert_fields)
      have Z: "\<not> row_bit W zeros (lo + k)"
        using pos unfolding zeros_def by (intro row_bit_zero) simp
      have B: "(\<exists>(f, v) \<in> set (zip fs vs).
              bit_low f \<le> lo + k \<and> lo + k \<le> bit_high f \<and> bit v (lo + k - bit_low f))
          \<longleftrightarrow> bit (vs ! i) k"
      proof
        assume "bit (vs ! i) k"
        moreover from i len have "(fs ! i, vs ! i) \<in> set (zip fs vs)"
          by (auto simp: in_set_zip)
        ultimately show "\<exists>(f, v) \<in> set (zip fs vs).
              bit_low f \<le> lo + k \<and> lo + k \<le> bit_high f \<and> bit v (lo + k - bit_low f)"
          using in_range by (intro bexI [of _ "(fs ! i, vs ! i)"]) (simp_all add: lo_def hi_def)
      next
        assume "\<exists>(f, v) \<in> set (zip fs vs).
              bit_low f \<le> lo + k \<and> lo + k \<le> bit_high f \<and> bit v (lo + k - bit_low f)"
        then obtain j where j: "j < length fs" "bit_low (fs ! j) \<le> lo + k"
          "lo + k \<le> bit_high (fs ! j)" "bit (vs ! j) (lo + k - bit_low (fs ! j))"
          by (auto simp: in_set_zip)
        have "j = i"
        proof (rule ccontr)
          assume "j \<noteq> i"
          with dist i j(1) have "fs ! j \<noteq> fs ! i" by (simp add: nth_eq_iff_index_eq)
          with ranges_disjoint_pair [OF disj _ fi this] j(1)
          have "bit_high (fs ! j) < lo \<or> hi < bit_low (fs ! j)"
            by (simp add: lo_def hi_def)
          with j(2,3) in_range show False by linarith
        qed
        with j(4) show "bit (vs ! i) k" by (simp add: lo_def)
      qed
      from A Z B True show ?thesis by simp
    qed
    finally show "bit (extract_field W row lo hi) k \<longleftrightarrow> bit (vs ! i) k" .
  qed
  then show ?thesis by (simp add: row_def zeros_def lo_def hi_def)
qed

lemma zip_map_same: "zip xs (map f xs) = map (\<lambda>x. (x, f x)) xs"
  by (induction xs) auto

text \<open>
  Building a row from the fields extracted from it gives the row back, when every bit
  that is set in the row lies in the range of some field.
\<close>

lemma insert_extract_fields:
  assumes W: "0 < W" and ok: "list_all (field_ok W) fs"
    and sized: "row_sized W fs row"
    and covered: "\<And>n. n div W < length row \<Longrightarrow> row_bit W row n \<Longrightarrow>
        \<exists>f \<in> set fs. bit_low f \<le> n \<and> n \<le> bit_high f"
  shows "insert_fields W
           (zip fs (map (\<lambda>f. extract_field W row (bit_low f) (bit_high f)) fs))
           (replicate (row_words W fs) 0) = row"
proof -
  define zeros :: "nat list" where "zeros = replicate (row_words W fs) 0"
  define ex where "ex f = extract_field W row (bit_low f) (bit_high f)"
    for f :: field_metadata
  define built where "built = insert_fields W (zip fs (map ex fs)) zeros"
  from sized have row_len: "length row = row_words W fs"
    and row_bounded: "list_all (\<lambda>w. w < 2 ^ W) row"
    by (simp_all add: row_sized_def)
  have fit: "bit_low f \<le> bit_high f \<and> bit_high f div W \<le> bit_low f div W + 1 \<and>
         bit_high f div W < length zeros \<and> v < 2 ^ (bit_high f - bit_low f + 1)"
    if "(f, v) \<in> set (zip fs (map ex fs))" for f v
    unfolding zeros_def using W ok _ _ that
  proof (rule zip_fields_fit)
    show "length (map ex fs) = length fs" by simp
    fix i assume "i < length fs"
    then show "map ex fs ! i < 2 ^ field_width (fs ! i)"
      using extract_field_bound [of W row "bit_low (fs ! i)" "bit_high (fs ! i)"]
      by (simp add: ex_def field_width_def)
  qed
  have built_len: "length built = row_words W fs"
    by (simp add: built_def zeros_def length_insert_fields)
  have "list_all (\<lambda>w. w < 2 ^ W) zeros" by (simp add: zeros_def list_all_iff)
  with W fit have built_bounded: "list_all (\<lambda>w. w < 2 ^ W) built"
    unfolding built_def by (intro insert_fields_bounded) auto
  have ex_bit: "bit (ex f) (n - bit_low f) \<longleftrightarrow> row_bit W row n"
    if f: "f \<in> set fs" and n: "bit_low f \<le> n" "n \<le> bit_high f" for f n
  proof -
    from f ok have "field_ok W f" by (simp add: list_all_iff)
    note fo = field_ok_facts(1,2) [OF this]
    from fo(1) have "bit_low f div W \<le> bit_high f div W" by (simp add: div_le_mono)
    with bit_high_in_row [OF W f] row_len row_bounded
    have "row ! (bit_low f div W) < 2 ^ W" by (simp add: list_all_length)
    from n have "n - bit_low f \<le> bit_high f - bit_low f" by simp
    with bit_extract_field [OF W fo \<open>row ! (bit_low f div W) < 2 ^ W\<close>, of "n - bit_low f"] n
    show ?thesis by (simp add: ex_def)
  qed
  have "built = row"
  proof (rule rows_equal [OF W _ built_bounded row_bounded])
    show "length built = length row" by (simp add: built_len row_len)
    fix n assume "n div W < length built"
    then have pos: "n div W < length zeros" and pos': "n div W < length row"
      by (simp_all add: built_len zeros_def row_len)
    have A: "row_bit W built n \<longleftrightarrow>
        row_bit W zeros n \<or>
        (\<exists>(f, v) \<in> set (zip fs (map ex fs)).
            bit_low f \<le> n \<and> n \<le> bit_high f \<and> bit v (n - bit_low f))"
      unfolding built_def using W fit pos by (rule row_bit_insert_fields)
    have Z: "\<not> row_bit W zeros n"
      using pos unfolding zeros_def by (intro row_bit_zero) simp
    have "(\<exists>(f, v) \<in> set (zip fs (map ex fs)).
            bit_low f \<le> n \<and> n \<le> bit_high f \<and> bit v (n - bit_low f))
        \<longleftrightarrow> (\<exists>f \<in> set fs. bit_low f \<le> n \<and> n \<le> bit_high f \<and> bit (ex f) (n - bit_low f))"
      by (auto simp: zip_map_same)
    also have "\<dots> \<longleftrightarrow> (\<exists>f \<in> set fs. bit_low f \<le> n \<and> n \<le> bit_high f \<and> row_bit W row n)"
      using ex_bit by blast
    also have "\<dots> \<longleftrightarrow> row_bit W row n"
      using covered [OF pos'] by blast
    finally show "row_bit W built n \<longleftrightarrow> row_bit W row n" using A Z by simp
  qed
  moreover have "ex = (\<lambda>f. extract_field W row (bit_low f) (bit_high f))"
    by (rule ext) (simp add: ex_def)
  ultimately show ?thesis by (simp add: built_def zeros_def)
qed

section \<open>Round trips of the table codec\<close>

lemma columns_ok_nth:
  assumes "columns_ok fs R cols" and "i < length fs"
  shows "length (cols ! i) = R" and "list_all (cell_ok (fs ! i)) (cols ! i)"
  using assms by (auto simp: columns_ok_def list_all_length)

lemma row_count_columns:
  assumes "length cols = length fs" and "i < length fs"
    and "\<And>j. j < length fs \<Longrightarrow> length (cols ! j) = R"
  shows "row_count cols = R"
proof (cases cols)
  case Nil
  with assms(1,2) show ?thesis by simp
next
  case (Cons c cs)
  with assms(1) have "0 < length fs" by auto
  from assms(3) [OF this] Cons show ?thesis by (simp add: row_count_def)
qed

lemma pack_then_unpack:
  assumes W: "0 < W" and meta: "check_metadata W fs = Inr ()"
    and cols: "columns_ok fs R cols"
  shows "\<exists>rows. pack W fs cols = Inr rows \<and> unpack W fs rows = Inr cols"
proof -
  note facts = check_metadata_facts [OF meta]
  from cols have len: "length cols = length fs" by (simp add: columns_ok_def)
  define Rc where "Rc = row_count cols"
  have col_len: "length (cols ! i) = Rc" if "i < length fs" for i
  proof -
    have "row_count cols = R"
      using len that columns_ok_nth(1) [OF cols] by (rule row_count_columns)
    with columns_ok_nth(1) [OF cols that] show ?thesis by (simp add: Rc_def)
  qed
  define enc where "enc f c = projr (encode_value f c)" for f c
  have enc: "encode_value (fs ! i) (cols ! i ! r) = Inr (enc (fs ! i) (cols ! i ! r))"
    "enc (fs ! i) (cols ! i ! r) < 2 ^ field_width (fs ! i)"
    "decode_value (fs ! i) (enc (fs ! i) (cols ! i ! r)) = Inr (cols ! i ! r)"
    if "i < length fs" and "r < Rc" for i r
  proof -
    from that(1) facts(2) have "field_ok W (fs ! i)" by (simp add: list_all_length)
    moreover from columns_ok_nth(2) [OF cols that(1)] that col_len [OF that(1)]
    have "cell_ok (fs ! i) (cols ! i ! r)" by (simp add: list_all_length)
    ultimately obtain v where "encode_value (fs ! i) (cols ! i ! r) = Inr v"
      "v < 2 ^ field_width (fs ! i)" "decode_value (fs ! i) v = Inr (cols ! i ! r)"
      using decode_encode_value by blast
    then show "encode_value (fs ! i) (cols ! i ! r) = Inr (enc (fs ! i) (cols ! i ! r))"
      "enc (fs ! i) (cols ! i ! r) < 2 ^ field_width (fs ! i)"
      "decode_value (fs ! i) (enc (fs ! i) (cols ! i ! r)) = Inr (cols ! i ! r)"
      by (simp_all add: enc_def)
  qed
  define vs where "vs r = map (\<lambda>i. enc (fs ! i) (cols ! i ! r)) [0..<length fs]" for r
  define row where "row r = insert_fields W (zip fs (vs r)) (replicate (row_words W fs) 0)" for r
  have vs_len: "length (vs r) = length fs" for r by (simp add: vs_def)
  have encoded: "traverse (\<lambda>(f, c). encode_value f c) (zip fs (map (\<lambda>c. c ! r) cols)) = Inr (vs r)"
    if "r < Rc" for r
  proof (rule traverse_nth)
    show "length (vs r) = length (zip fs (map (\<lambda>c. c ! r) cols))"
      by (simp add: vs_len len)
    fix i assume "i < length (zip fs (map (\<lambda>c. c ! r) cols))"
    then have i: "i < length fs" by simp
    with len enc(1) [OF i that]
    show "(case zip fs (map (\<lambda>c. c ! r) cols) ! i of (f, c) \<Rightarrow> encode_value f c) = Inr (vs r ! i)"
      by (simp add: vs_def)
  qed
  have packed_row: "pack_row W fs (map (\<lambda>c. c ! r) cols) = Inr (row r)" if "r < Rc" for r
    by (simp add: pack_row_def encoded [OF that] row_def)
  have "list_all (\<lambda>c. length c = row_count cols) cols"
    using col_len len by (simp add: list_all_length Rc_def)
  with len have "pack W fs cols = traverse (\<lambda>r. pack_row W fs (map (\<lambda>c. c ! r) cols)) [0..<Rc]"
    by (simp add: pack_def Rc_def)
  also have "\<dots> = Inr (map row [0..<Rc])"
    by (rule traverse_map) (simp add: packed_row)
  finally have packed: "pack W fs cols = Inr (map row [0..<Rc])" .
  have "list_all (\<lambda>r. length r = row_words W fs) (map row [0..<Rc])"
    by (simp add: list_all_iff row_def length_insert_fields)
  then have "unpack W fs (map row [0..<Rc]) =
      traverse
        (\<lambda>f. traverse (\<lambda>r. decode_value f (extract_field W r (bit_low f) (bit_high f)))
               (map row [0..<Rc]))
        fs"
    by (simp add: unpack_def)
  also have "\<dots> = Inr cols"
  proof (rule traverse_nth)
    show "length cols = length fs" by (rule len)
    fix i assume i: "i < length fs"
    show "traverse
        (\<lambda>r. decode_value (fs ! i) (extract_field W r (bit_low (fs ! i)) (bit_high (fs ! i))))
        (map row [0..<Rc]) = Inr (cols ! i)"
    proof (rule traverse_nth)
      show "length (cols ! i) = length (map row [0..<Rc])"
        by (simp add: col_len [OF i])
      fix r assume "r < length (map row [0..<Rc])"
      then have r: "r < Rc" by simp
      have "extract_field W (row r) (bit_low (fs ! i)) (bit_high (fs ! i)) = vs r ! i"
        unfolding row_def using W facts vs_len _ i
      proof (rule extract_insert_fields)
        fix j assume "j < length fs"
        with enc(2) [OF this r] show "vs r ! j < 2 ^ field_width (fs ! j)"
          by (simp add: vs_def)
      qed
      with enc(3) [OF i r] i r
      show "decode_value (fs ! i)
          (extract_field W (map row [0..<Rc] ! r) (bit_low (fs ! i)) (bit_high (fs ! i)))
          = Inr (cols ! i ! r)"
        by (simp add: vs_def)
    qed
  qed
  finally have "unpack W fs (map row [0..<Rc]) = Inr cols" .
  with packed show ?thesis by blast
qed

lemma unpack_then_pack:
  assumes W: "0 < W" and meta: "check_metadata W fs = Inr ()"
    and nonempty: "fs \<noteq> []" and labels: "labels_distinct fs"
    and rows: "list_all (\<lambda>row. row_sized W fs row \<and> row_decodable W fs row) rows"
  shows "\<exists>cols. unpack W fs rows = Inr cols \<and> pack W fs cols = Inr rows"
proof -
  note facts = check_metadata_facts [OF meta]
  define ex where "ex f row = extract_field W row (bit_low f) (bit_high f)"
    for f :: field_metadata and row
  define dec where "dec f v = projr (decode_value f v)" for f v
  have sized: "row_sized W fs row" and decodable: "row_decodable W fs row"
    if "row \<in> set rows" for row
    using rows that by (simp_all add: list_all_iff)
  have roundtrip: "decode_value f (ex f row) = Inr (dec f (ex f row))"
    "encode_value f (dec f (ex f row)) = Inr (ex f row)"
    if f: "f \<in> set fs" and row: "row \<in> set rows" for f row
  proof -
    from f facts(2) have ok: "field_ok W f" by (simp add: list_all_iff)
    have bound: "ex f row < 2 ^ field_width f"
      using extract_field_bound [of W row "bit_low f" "bit_high f"]
      by (simp add: ex_def field_width_def)
    have "case enum_labels f of None \<Rightarrow> True | Some ls \<Rightarrow> ex f row < length ls \<and> distinct ls"
      using decodable [OF row] labels f
      by (auto simp: row_decodable_def labels_distinct_def list_all_iff ex_def split: option.splits)
    with ok bound obtain c where "decode_value f (ex f row) = Inr c" "encode_value f c = Inr (ex f row)"
      using encode_decode_value by blast
    then show "decode_value f (ex f row) = Inr (dec f (ex f row))"
      "encode_value f (dec f (ex f row)) = Inr (ex f row)"
      by (simp_all add: dec_def)
  qed
  define cols where "cols = map (\<lambda>f. map (\<lambda>row. dec f (ex f row)) rows) fs"
  have "list_all (\<lambda>row. length row = row_words W fs) rows"
    using sized by (simp add: list_all_iff row_sized_def)
  then have "unpack W fs rows =
      traverse (\<lambda>f. traverse (\<lambda>row. decode_value f (ex f row)) rows) fs"
    by (simp add: unpack_def ex_def)
  also have "\<dots> = Inr cols"
    unfolding cols_def
  proof (rule traverse_map)
    fix f assume "f \<in> set fs"
    then show "traverse (\<lambda>row. decode_value f (ex f row)) rows
        = Inr (map (\<lambda>row. dec f (ex f row)) rows)"
      by (intro traverse_map roundtrip(1))
  qed
  finally have unpacked: "unpack W fs rows = Inr cols" .
  have len: "length cols = length fs" by (simp add: cols_def)
  have count: "row_count cols = length rows"
    using nonempty by (cases fs) (simp_all add: cols_def row_count_def)
  have all_len: "list_all (\<lambda>c. length c = row_count cols) cols"
    unfolding count by (simp add: cols_def list_all_iff)
  have cells: "map (\<lambda>c. c ! r) cols = map (\<lambda>f. dec f (ex f (rows ! r))) fs"
    if "r < length rows" for r
    using that by (simp add: cols_def)
  have packed_row: "pack_row W fs (map (\<lambda>c. c ! r) cols) = Inr (rows ! r)"
    if r: "r < length rows" for r
  proof -
    from r have row: "rows ! r \<in> set rows" by simp
    have "traverse (\<lambda>(f, c). encode_value f c) (zip fs (map (\<lambda>f. dec f (ex f (rows ! r))) fs))
        = Inr (map (\<lambda>(f, c). ex f (rows ! r)) (zip fs (map (\<lambda>f. dec f (ex f (rows ! r))) fs)))"
      by (rule traverse_map) (auto simp: zip_map_same roundtrip(2) [OF _ row])
    also have "map (\<lambda>(f, c). ex f (rows ! r)) (zip fs (map (\<lambda>f. dec f (ex f (rows ! r))) fs))
        = map (\<lambda>f. ex f (rows ! r)) fs"
      by (simp add: zip_map_same)
    finally have encoded: "traverse (\<lambda>(f, c). encode_value f c)
        (zip fs (map (\<lambda>f. dec f (ex f (rows ! r))) fs)) = Inr (map (\<lambda>f. ex f (rows ! r)) fs)" .
    have covered: "\<exists>f \<in> set fs. bit_low f \<le> n \<and> n \<le> bit_high f"
      if "n div W < length (rows ! r)" and "row_bit W (rows ! r) n" for n
    proof -
      from that(1) W have "n < W * length (rows ! r)"
        by (simp add: div_less_iff_less_mult mult.commute)
      with decodable [OF row] that(2) show ?thesis
        by (auto simp: row_decodable_def list_all_iff list_ex_iff split: if_splits)
    qed
    have "insert_fields W
        (zip fs (map (\<lambda>f. extract_field W (rows ! r) (bit_low f) (bit_high f)) fs))
        (replicate (row_words W fs) 0) = rows ! r"
      using W facts(2) sized [OF row] covered by (rule insert_extract_fields)
    moreover have "(\<lambda>f. ex f (rows ! r)) = (\<lambda>f. extract_field W (rows ! r) (bit_low f) (bit_high f))"
      by (rule ext) (simp add: ex_def)
    ultimately show ?thesis
      by (simp add: pack_row_def cells [OF r] encoded)
  qed
  from len all_len have "pack W fs cols =
      traverse (\<lambda>r. pack_row W fs (map (\<lambda>c. c ! r) cols)) [0..<length rows]"
    by (simp add: pack_def count)
  also have "\<dots> = Inr rows"
    by (rule traverse_nth) (simp_all add: packed_row)
  finally have "pack W fs cols = Inr rows" .
  with unpacked show ?thesis by blast
qed

text \<open>Evaluating the codec on the examples.\<close>

lemmas codec_eval =
  check_metadata_def field_ok_def row_words_def unpack_def pack_def pack_row_def
  insert_fields_def insert_field_def extract_field_def decode_value_def encode_value_def
  field_width_def row_count_def columns_ok_def cell_ok_def row_sized_def row_decodable_def
  labels_distinct_def row_bit_def

lemma example_metadata: "check_metadata 32 example_fields = Inr ()"
  by (simp add: example_fields_def codec_eval)

lemma example_unpack: "unpack 32 example_fields example_rows = Inr example_columns"
  by (simp add: example_fields_def example_columns_def example_rows_def codec_eval
      bit_iff_odd_drop_bit flip: take_bit_eq_mask)

lemma example_columns_ok: "columns_ok example_fields 2 example_columns"
  by (simp add: example_fields_def example_columns_def codec_eval)

lemma example_rows_ok:
  "list_all (\<lambda>row. row_sized 32 example_fields row \<and> row_decodable 32 example_fields row) example_rows"
  by (simp add: example_fields_def example_rows_def codec_eval upt_rec [of _ "numeral _"]
      bit_iff_odd_drop_bit flip: take_bit_eq_mask)


text \<open>
  C2 (as amended). For a table of validated Field Metadata and a word width \<open>W > 0\<close>:
  every Column Array whose cells respect their field's width and subtype packs to rows
  that unpack to the same columns; and, when the table has at least one field and the
  labels of each enumerated field are pairwise different, every list of rows sized per
  the metadata whose set bits all lie in the range of some field and whose enumerated
  codes index their label lists unpacks to columns that pack to the same rows.
\<close>

theorem table_codec_round_trip:
  assumes "0 < W" and "check_metadata W fs = Inr ()"
  shows "(columns_ok fs R cols \<longrightarrow>
            (\<exists>rows'. pack W fs cols = Inr rows' \<and> unpack W fs rows' = Inr cols)) \<and>
         (fs \<noteq> [] \<and> labels_distinct fs \<and>
          list_all (\<lambda>row. row_sized W fs row \<and> row_decodable W fs row) rows \<longrightarrow>
            (\<exists>cols'. unpack W fs rows = Inr cols' \<and> pack W fs cols' = Inr rows))"
proof (intro conjI impI)
  assume "columns_ok fs R cols"
  with assms show "\<exists>rows'. pack W fs cols = Inr rows' \<and> unpack W fs rows' = Inr cols"
    by (rule pack_then_unpack)
next
  assume "fs \<noteq> [] \<and> labels_distinct fs \<and>
          list_all (\<lambda>row. row_sized W fs row \<and> row_decodable W fs row) rows"
  then have "fs \<noteq> []" and "labels_distinct fs"
    and "list_all (\<lambda>row. row_sized W fs row \<and> row_decodable W fs row) rows"
    by simp_all
  with assms show "\<exists>cols'. unpack W fs rows = Inr cols' \<and> pack W fs cols' = Inr rows"
    by (rule unpack_then_pack)
qed

theorem table_codec_round_trip_witness:
  "unpack 32 example_fields example_rows = Inr example_columns \<and>
   pack 32 example_fields example_columns = Inr example_rows"
proof -
  have W: "0 < (32::nat)" by simp
  have nonempty: "example_fields \<noteq> []" by (simp add: example_fields_def)
  have distinct: "labels_distinct example_fields"
    by (simp add: example_fields_def labels_distinct_def)
  from table_codec_round_trip [OF W example_metadata, of 2 example_columns example_rows]
    example_columns_ok nonempty distinct example_rows_ok
  have "\<exists>cols'. unpack 32 example_fields example_rows = Inr cols' \<and>
          pack 32 example_fields cols' = Inr example_rows"
    by blast
  with example_unpack show ?thesis by simp
qed

text \<open>
  The second round trip as first stated, for every word array sized per the metadata,
  fails: with one unsigned field on bits 0 to 3 and 32-bit words, the row \<open>[16]\<close> has
  the right size, unpacks to the column \<open>[0]\<close>, and the column packs to the row \<open>[0]\<close>.
\<close>

theorem table_codec_counterexample:
  "check_metadata 32 nibble_field = Inr () \<and>
   list_all (row_sized 32 nibble_field) [[16]] \<and>
   unpack 32 nibble_field [[16]] = Inr [[Number 0]] \<and>
   pack 32 nibble_field [[Number 0]] = Inr [[0]]"
  by (simp add: nibble_field_def codec_eval flip: take_bit_eq_mask)


end
